theory Spec2Isabelle
  imports Main "HOL-Library.AList"
begin

section \<open>The graph store (class VersatileDigraph)\<close>

text \<open>
  A node is any hashable Python value; it is a type variable here. A Python \<open>set\<close> is
  modelled by the list of its members in iteration order, without repetition. Python
  leaves that order unspecified: the theorems about the read-only operations quantify
  over every graph value, hence over every iteration order. The dictionary
  \<open>self.edges\<close> is an association list read with \<open>map_of\<close>; its keys are never
  iterated by the code.
\<close>

datatype 'a error =
    KeyError 'a
  | ValueError 'a 'a

record 'a graph =
  nodes :: "'a list"
  edges :: "('a \<times> 'a list) list"

text \<open>\<open>__init__\<close>: an empty node set and an empty dictionary.\<close>

definition init :: "'a graph" where
  "init = \<lparr>nodes = [], edges = []\<rparr>"

text \<open>\<open>s.add(x)\<close> on a Python set: nothing happens when \<open>x\<close> is a member already.\<close>

definition set_add :: "'a list \<Rightarrow> 'a \<Rightarrow> 'a list" where
  "set_add s x = (if x \<in> set s then s else s @ [x])"

definition add_node :: "'a graph \<Rightarrow> 'a \<Rightarrow> 'a graph" where
  "add_node g node =
     (let g1 = g\<lparr>nodes := set_add (nodes g) node\<rparr>
      in if map_of (edges g1) node = None
         then g1\<lparr>edges := AList.update node [] (edges g1)\<rparr>
         else g1)"

text \<open>
  \<open>add_edge\<close> returns the exception it raised, if any, and the state it leaves behind.
  The subscript \<open>self.edges[u]\<close> is the one place that could raise (a \<open>KeyError\<close>); the
  two calls of \<open>add_node\<close> have happened by then.
\<close>

definition add_edge :: "'a graph \<Rightarrow> 'a \<Rightarrow> 'a \<Rightarrow> 'a error option \<times> 'a graph" where
  "add_edge g u v =
     (let g1 = add_node g u;
          g2 = add_node g1 v
      in case map_of (edges g2) u of
           None \<Rightarrow> (Some (KeyError u), g2)
         | Some s \<Rightarrow> (None, g2\<lparr>edges := AList.update u (set_add s v) (edges g2)\<rparr>))"

text \<open>\<open>self.edges.get(node, set())\<close>: the members of the adjacency set, none for an absent key.\<close>

definition get_neighbors :: "'a graph \<Rightarrow> 'a \<Rightarrow> 'a list" where
  "get_neighbors g node = (case map_of (edges g) node of None \<Rightarrow> [] | Some s \<Rightarrow> s)"

definition get_all_nodes :: "'a graph \<Rightarrow> 'a list" where
  "get_all_nodes g = nodes g"

text \<open>The edge relation of a graph state: \<open>u \<rightarrow> v\<close> when \<open>v\<close> is a neighbor of \<open>u\<close>.\<close>

definition edge_rel :: "'a graph \<Rightarrow> ('a \<times> 'a) set" where
  "edge_rel g = {(u, v). v \<in> set (get_neighbors g u)}"

text \<open>Every value that occurs in some adjacency set; a finite set.\<close>

definition targets :: "'a graph \<Rightarrow> 'a set" where
  "targets g = (\<Union>p \<in> set (edges g). set (snd p))"

section \<open>Traversal (class TraversableDigraph)\<close>

text \<open>
  The generators are modelled by the list of the values they yield. The stack of \<open>dfs\<close>
  is a list whose head is the top: \<open>stack.pop()\<close> takes the head and
  \<open>stack.append(x)\<close> is a cons. \<open>visited\<close> is only tested for membership, so it is a
  HOL set.
\<close>

definition push_neighbors :: "'a set \<Rightarrow> 'a list \<Rightarrow> 'a list \<Rightarrow> 'a list" where
  "push_neighbors visited ns stack =
     foldl (\<lambda>st neighbor. if neighbor \<notin> visited then neighbor # st else st) stack (rev ns)"

function dfs_loop :: "'a graph \<Rightarrow> 'a set \<Rightarrow> 'a list \<Rightarrow> 'a list" where
  "dfs_loop g visited [] = []"
| "dfs_loop g visited (current_node # stack) =
     (if current_node \<notin> visited
      then current_node #
             dfs_loop g (insert current_node visited)
               (push_neighbors (insert current_node visited) (get_neighbors g current_node) stack)
      else dfs_loop g visited stack)"
  by pat_completeness auto

lemma push_neighbors_eq:
  "push_neighbors visited ns stack = filter (\<lambda>n. n \<notin> visited) ns @ stack"
  unfolding push_neighbors_def by (induction ns arbitrary: stack) auto

lemma get_neighbors_targets: "set (get_neighbors g n) \<subseteq> targets g"
proof (cases "map_of (edges g) n")
  case None
  then show ?thesis by (simp add: get_neighbors_def)
next
  case (Some s)
  then have "(n, s) \<in> set (edges g)" by (rule map_of_SomeD)
  then show ?thesis using Some by (force simp: get_neighbors_def targets_def)
qed

lemma finite_targets: "finite (targets g)"
  unfolding targets_def by simp

termination dfs_loop
proof (relation "measures [\<lambda>(g, visited, stack). card ((targets g \<union> set stack) - visited),
                           \<lambda>(g, visited, stack). length stack]")
  show "wf (measures [\<lambda>(g, visited, stack). card ((targets g \<union> set stack) - visited),
                       \<lambda>(g :: 'a graph, visited :: 'a set, stack :: 'a list). length stack])"
    by simp
next
  fix g :: "'a graph" and visited :: "'a set" and current_node :: 'a and stack :: "'a list"
  assume nv: "current_node \<notin> visited"
  let ?st = "push_neighbors (insert current_node visited) (get_neighbors g current_node) stack"
  have sub: "(targets g \<union> set ?st) - insert current_node visited
               \<subseteq> (targets g \<union> set (current_node # stack)) - visited"
    using get_neighbors_targets[of g current_node] by (auto simp: push_neighbors_eq)
  have mem: "current_node \<in> (targets g \<union> set (current_node # stack)) - visited"
    using nv by simp
  have "(targets g \<union> set ?st) - insert current_node visited
          \<subset> (targets g \<union> set (current_node # stack)) - visited"
    using sub mem by blast
  then have "card ((targets g \<union> set ?st) - insert current_node visited)
               < card ((targets g \<union> set (current_node # stack)) - visited)"
    by (intro psubset_card_mono) (simp_all add: finite_targets)
  then show "((g, insert current_node visited, ?st), (g, visited, current_node # stack))
               \<in> measures [\<lambda>(g, visited, stack). card ((targets g \<union> set stack) - visited),
                            \<lambda>(g, visited, stack). length stack]"
    by simp
next
  fix g :: "'a graph" and visited :: "'a set" and current_node :: 'a and stack :: "'a list"
  assume "\<not> current_node \<notin> visited"
  then have v: "current_node \<in> visited" by simp
  have "(targets g \<union> set stack) - visited = (targets g \<union> set (current_node # stack)) - visited"
    using v by auto
  then show "((g, visited, stack), (g, visited, current_node # stack))
               \<in> measures [\<lambda>(g, visited, stack). card ((targets g \<union> set stack) - visited),
                            \<lambda>(g, visited, stack). length stack]"
    by simp
qed

definition dfs :: "'a graph \<Rightarrow> 'a \<Rightarrow> 'a list" where
  "dfs g start = (if start \<notin> set (nodes g) then [] else dfs_loop g {} [start])"

text \<open>
  \<open>bfs\<close>: the queue is a list whose head is the front. The inner \<open>for\<close> loop marks and
  enqueues the neighbors that are not visited yet.
\<close>

fun enqueue_unvisited :: "'a list \<Rightarrow> 'a set \<Rightarrow> 'a list \<Rightarrow> 'a set \<times> 'a list" where
  "enqueue_unvisited [] visited queue = (visited, queue)"
| "enqueue_unvisited (neighbor # ns) visited queue =
     (if neighbor \<notin> visited
      then enqueue_unvisited ns (insert neighbor visited) (queue @ [neighbor])
      else enqueue_unvisited ns visited queue)"

function bfs_loop :: "'a graph \<Rightarrow> 'a set \<Rightarrow> 'a list \<Rightarrow> 'a list" where
  "bfs_loop g visited [] = []"
| "bfs_loop g visited (current_node # queue) =
     (case enqueue_unvisited (get_neighbors g current_node) visited queue of
        (visited', queue') \<Rightarrow> current_node # bfs_loop g visited' queue')"
  by pat_completeness auto

lemma enqueue_unvisited_shape:
  "enqueue_unvisited ns visited queue = (visited', queue') \<Longrightarrow>
   \<exists>new. queue' = queue @ new \<and> visited' = visited \<union> set new \<and> set new \<subseteq> set ns - visited"
proof (induction ns arbitrary: visited queue)
  case Nil
  then show ?case by simp
next
  case (Cons n ns)
  show ?case
  proof (cases "n \<in> visited")
    case True
    then have "enqueue_unvisited ns visited queue = (visited', queue')"
      using Cons.prems by simp
    from Cons.IH[OF this] show ?thesis by auto
  next
    case False
    then have "enqueue_unvisited ns (insert n visited) (queue @ [n]) = (visited', queue')"
      using Cons.prems by simp
    from Cons.IH[OF this] obtain new where
      n: "queue' = (queue @ [n]) @ new" "visited' = insert n visited \<union> set new"
         "set new \<subseteq> set ns - insert n visited"
      by blast
    have "queue' = queue @ (n # new) \<and> visited' = visited \<union> set (n # new)
            \<and> set (n # new) \<subseteq> set (n # ns) - visited"
      using n False by auto
    then show ?thesis by blast
  qed
qed

lemma frontier_decreases:
  assumes "queue' = queue @ new" and "visited' = visited \<union> set new"
    and "set new \<subseteq> T - visited" and "finite T"
  shows "card (T - visited') < card (T - visited)
         \<or> (card (T - visited') = card (T - visited) \<and> length queue' < Suc (length queue))"
proof (cases "new = []")
  case True
  then show ?thesis using assms by simp
next
  case False
  then obtain x where x: "x \<in> set new" by (cases new) auto
  then have "x \<in> T - visited" and "x \<notin> T - visited'" using assms by auto
  moreover have "T - visited' \<subseteq> T - visited" using assms by auto
  ultimately have "T - visited' \<subset> T - visited" by blast
  then have "card (T - visited') < card (T - visited)"
    using assms(4) by (intro psubset_card_mono) simp_all
  then show ?thesis by simp
qed

termination bfs_loop
proof (relation "measures [\<lambda>(g, visited, queue). card (targets g - visited),
                           \<lambda>(g, visited, queue). length queue]")
  show "wf (measures [\<lambda>(g, visited, queue). card (targets g - visited),
                       \<lambda>(g :: 'a graph, visited :: 'a set, queue :: 'a list). length queue])"
    by simp
next
  fix g :: "'a graph" and visited current_node queue xa y
  assume "(xa, y) = enqueue_unvisited (get_neighbors g current_node) visited queue"
  then have e: "enqueue_unvisited (get_neighbors g current_node) visited queue = (xa, y)"
    by simp
  from enqueue_unvisited_shape[OF e] obtain new where
    n: "y = queue @ new" "xa = visited \<union> set new"
       "set new \<subseteq> set (get_neighbors g current_node) - visited"
    by blast
  have "set new \<subseteq> targets g - visited"
    using n(3) get_neighbors_targets[of g current_node] by auto
  from frontier_decreases[OF n(1,2) this finite_targets]
  show "((g, xa, y), (g, visited, current_node # queue))
          \<in> measures [\<lambda>(g, visited, queue). card (targets g - visited),
                       \<lambda>(g, visited, queue). length queue]"
    by auto
qed

text \<open>
  \<open>bfs\<close> builds \<open>deque([start])\<close> and removes its only element with \<open>popleft()\<close> before
  the loop starts.
\<close>

definition bfs :: "'a graph \<Rightarrow> 'a \<Rightarrow> 'a list" where
  "bfs g start =
     (if start \<notin> set (nodes g) then []
      else let visited = {start};
               queue = [start];
               queue = tl queue
           in bfs_loop g visited queue)"

section \<open>Topological sort (class SortableDigraph)\<close>

text \<open>
  \<open>in_degree\<close> is a dictionary from nodes to Python integers. Each subscript
  \<open>in_degree[neighbor]\<close> raises \<open>KeyError\<close> on a missing key, so every loop returns
  either the exception or its result. The four loops of \<open>top_sort\<close> follow: the two
  nested \<open>for\<close> loops that count, the \<open>for\<close> loop that fills the queue, the inner
  \<open>for\<close> loop of the \<open>while\<close>, and the \<open>while\<close> loop itself.
\<close>

fun count_neighbors :: "'a list \<Rightarrow> ('a \<rightharpoonup> int) \<Rightarrow> 'a error + ('a \<rightharpoonup> int)" where
  "count_neighbors [] in_degree = Inr in_degree"
| "count_neighbors (neighbor # ns) in_degree =
     (case in_degree neighbor of
        None \<Rightarrow> Inl (KeyError neighbor)
      | Some d \<Rightarrow> count_neighbors ns (in_degree(neighbor \<mapsto> d + 1)))"

fun count_in_degrees :: "'a graph \<Rightarrow> 'a list \<Rightarrow> ('a \<rightharpoonup> int) \<Rightarrow> 'a error + ('a \<rightharpoonup> int)" where
  "count_in_degrees g [] in_degree = Inr in_degree"
| "count_in_degrees g (current_node # rest) in_degree =
     (case count_neighbors (get_neighbors g current_node) in_degree of
        Inl e \<Rightarrow> Inl e
      | Inr in_degree' \<Rightarrow> count_in_degrees g rest in_degree')"

fun initial_queue :: "'a list \<Rightarrow> ('a \<rightharpoonup> int) \<Rightarrow> 'a list \<Rightarrow> 'a error + 'a list" where
  "initial_queue [] in_degree queue = Inr queue"
| "initial_queue (n # rest) in_degree queue =
     (case in_degree n of
        None \<Rightarrow> Inl (KeyError n)
      | Some d \<Rightarrow> initial_queue rest in_degree (if d = 0 then queue @ [n] else queue))"

fun release_neighbors ::
  "'a list \<Rightarrow> ('a \<rightharpoonup> int) \<Rightarrow> 'a list \<Rightarrow> 'a error + (('a \<rightharpoonup> int) \<times> 'a list)" where
  "release_neighbors [] in_degree queue = Inr (in_degree, queue)"
| "release_neighbors (neighbor # ns) in_degree queue =
     (case in_degree neighbor of
        None \<Rightarrow> Inl (KeyError neighbor)
      | Some d \<Rightarrow>
          release_neighbors ns (in_degree(neighbor \<mapsto> d - 1))
            (if d - 1 = 0 then queue @ [neighbor] else queue))"

function top_sort_loop ::
  "'a graph \<Rightarrow> ('a \<rightharpoonup> int) \<Rightarrow> 'a list \<Rightarrow> 'a list \<Rightarrow> 'a error + 'a list" where
  "top_sort_loop g in_degree [] top_order = Inr top_order"
| "top_sort_loop g in_degree (current # queue) top_order =
     (case release_neighbors (get_neighbors g current) in_degree queue of
        Inl e \<Rightarrow> Inl e
      | Inr (in_degree', queue') \<Rightarrow> top_sort_loop g in_degree' queue' (top_order @ [current]))"
  by pat_completeness auto

text \<open>The sum of the positive in-degrees over a finite set: the termination measure.\<close>

definition positive_total :: "'a set \<Rightarrow> ('a \<rightharpoonup> int) \<Rightarrow> nat" where
  "positive_total T in_degree = (\<Sum>n \<in> T. case in_degree n of None \<Rightarrow> 0 | Some d \<Rightarrow> nat d)"

lemma positive_total_update:
  assumes "finite T" and "n \<in> T" and "in_degree n = Some d"
  shows "positive_total T (in_degree(n \<mapsto> d - 1)) + (if 0 < d then 1 else 0)
           = positive_total T in_degree"
proof -
  let ?f = "\<lambda>m. case in_degree m of None \<Rightarrow> 0 | Some d \<Rightarrow> nat d"
  let ?f' = "\<lambda>m. case (in_degree(n \<mapsto> d - 1)) m of None \<Rightarrow> 0 | Some d \<Rightarrow> nat d"
  have rest: "sum ?f' (T - {n}) = sum ?f (T - {n})"
    by (rule sum.cong) auto
  have a: "sum ?f T = ?f n + sum ?f (T - {n})"
    using assms(1,2) by (rule sum.remove)
  have b: "sum ?f' T = ?f' n + sum ?f' (T - {n})"
    using assms(1,2) by (rule sum.remove)
  have c: "?f' n + (if 0 < d then 1 else 0) = ?f n"
    using assms(3) by auto
  show ?thesis
    unfolding positive_total_def using a b c rest by linarith
qed

lemma release_neighbors_measure:
  "release_neighbors ns in_degree queue = Inr (in_degree', queue') \<Longrightarrow>
   finite T \<Longrightarrow> set ns \<subseteq> T \<Longrightarrow>
   2 * positive_total T in_degree' + length queue' \<le> 2 * positive_total T in_degree + length queue"
proof (induction ns arbitrary: in_degree queue)
  case Nil
  then show ?case by simp
next
  case (Cons n ns)
  from Cons.prems(1) obtain d where d: "in_degree n = Some d"
    by (cases "in_degree n") auto
  let ?deg = "in_degree(n \<mapsto> d - 1)"
  let ?q = "if d - 1 = 0 then queue @ [n] else queue"
  have rel: "release_neighbors ns ?deg ?q = Inr (in_degree', queue')"
    using Cons.prems(1) d by simp
  have sub: "set ns \<subseteq> T" using Cons.prems(3) by simp
  have ih: "2 * positive_total T in_degree' + length queue'
              \<le> 2 * positive_total T ?deg + length ?q"
    by (rule Cons.IH[OF rel Cons.prems(2) sub])
  have "positive_total T ?deg + (if 0 < d then 1 else 0) = positive_total T in_degree"
    using Cons.prems(2,3) d by (intro positive_total_update) auto
  then have "2 * positive_total T ?deg + length ?q \<le> 2 * positive_total T in_degree + length queue"
    by (auto split: if_splits)
  with ih show ?case by linarith
qed

termination top_sort_loop
proof (relation "measure (\<lambda>(g, in_degree, queue, top_order).
                   2 * positive_total (targets g) in_degree + length queue)")
  show "wf (measure (\<lambda>(g :: 'a graph, in_degree :: 'a \<rightharpoonup> int, queue :: 'a list,
                        top_order :: 'a list).
                   2 * positive_total (targets g) in_degree + length queue))"
    by simp
next
  fix g :: "'a graph" and in_degree current queue top_order x2 x y
  assume "release_neighbors (get_neighbors g current) in_degree queue = Inr x2"
    and "(x, y) = x2"
  then have "release_neighbors (get_neighbors g current) in_degree queue = Inr (x, y)"
    by simp
  from release_neighbors_measure[OF this finite_targets get_neighbors_targets]
  show "((g, x, y, top_order @ [current]), (g, in_degree, current # queue, top_order))
          \<in> measure (\<lambda>(g, in_degree, queue, top_order).
                   2 * positive_total (targets g) in_degree + length queue)"
    by simp
qed

definition top_sort :: "'a graph \<Rightarrow> 'a error + 'a list" where
  "top_sort g =
     (let in_degree = map_of (map (\<lambda>n. (n, 0)) (nodes g))
      in case count_in_degrees g (nodes g) in_degree of
           Inl e \<Rightarrow> Inl e
         | Inr in_degree \<Rightarrow>
             (case initial_queue (nodes g) in_degree [] of
                Inl e \<Rightarrow> Inl e
              | Inr queue \<Rightarrow> top_sort_loop g in_degree queue []))"

section \<open>The acyclic guard (class DAG)\<close>

text \<open>
  \<open>_has_path\<close>: the inner \<open>for\<close> loop either returns \<open>True\<close> from the whole function
  (\<open>Found\<close>) or runs to its end and leaves the visited set and the queue
  (\<open>Continue\<close>). The parameter \<open>end\<close> is called \<open>end_node\<close>.
\<close>

datatype 'a scan = Found | Continue "'a set" "'a list"

fun scan_neighbors :: "'a \<Rightarrow> 'a list \<Rightarrow> 'a set \<Rightarrow> 'a list \<Rightarrow> 'a scan" where
  "scan_neighbors end_node [] visited queue = Continue visited queue"
| "scan_neighbors end_node (neighbor # ns) visited queue =
     (if neighbor = end_node then Found
      else if neighbor \<notin> visited
      then scan_neighbors end_node ns (insert neighbor visited) (queue @ [neighbor])
      else scan_neighbors end_node ns visited queue)"

function has_path_loop :: "'a graph \<Rightarrow> 'a \<Rightarrow> 'a set \<Rightarrow> 'a list \<Rightarrow> bool" where
  "has_path_loop g end_node visited [] = False"
| "has_path_loop g end_node visited (current_node # queue) =
     (case scan_neighbors end_node (get_neighbors g current_node) visited queue of
        Found \<Rightarrow> True
      | Continue visited' queue' \<Rightarrow> has_path_loop g end_node visited' queue')"
  by pat_completeness auto

lemma scan_neighbors_shape:
  "scan_neighbors end_node ns visited queue = Continue visited' queue' \<Longrightarrow>
   end_node \<notin> set ns \<and>
   (\<exists>new. queue' = queue @ new \<and> visited' = visited \<union> set new \<and> set new \<subseteq> set ns - visited
          \<and> set ns \<subseteq> visited')"
proof (induction ns arbitrary: visited queue)
  case Nil
  then show ?case by simp
next
  case (Cons n ns)
  from Cons.prems have ne: "n \<noteq> end_node" by (auto split: if_splits)
  show ?case
  proof (cases "n \<in> visited")
    case True
    then have "scan_neighbors end_node ns visited queue = Continue visited' queue'"
      using Cons.prems ne by simp
    from Cons.IH[OF this] show ?thesis using ne True by auto
  next
    case False
    then have "scan_neighbors end_node ns (insert n visited) (queue @ [n]) = Continue visited' queue'"
      using Cons.prems ne by simp
    from Cons.IH[OF this] obtain new where
      n: "end_node \<notin> set ns" "queue' = (queue @ [n]) @ new" "visited' = insert n visited \<union> set new"
         "set new \<subseteq> set ns - insert n visited" "set ns \<subseteq> visited'"
      by blast
    have "queue' = queue @ (n # new) \<and> visited' = visited \<union> set (n # new)
            \<and> set (n # new) \<subseteq> set (n # ns) - visited \<and> set (n # ns) \<subseteq> visited'"
      using n False by auto
    then show ?thesis using ne n(1) by (metis set_ConsD)
  qed
qed

lemma scan_neighbors_Found:
  "scan_neighbors end_node ns visited queue = Found \<longleftrightarrow> end_node \<in> set ns"
  by (induction ns arbitrary: visited queue) auto

termination has_path_loop
proof (relation "measures [\<lambda>(g, end_node, visited, queue). card (targets g - visited),
                           \<lambda>(g, end_node, visited, queue). length queue]")
  show "wf (measures [\<lambda>(g, end_node, visited, queue). card (targets g - visited),
                       \<lambda>(g :: 'a graph, end_node :: 'a, visited :: 'a set, queue :: 'a list).
                          length queue])"
    by simp
next
  fix g :: "'a graph" and end_node visited current_node queue x21 x22
  assume "scan_neighbors end_node (get_neighbors g current_node) visited queue = Continue x21 x22"
  from scan_neighbors_shape[OF this] obtain new where
    n: "x22 = queue @ new" "x21 = visited \<union> set new"
       "set new \<subseteq> set (get_neighbors g current_node) - visited"
    by blast
  have "set new \<subseteq> targets g - visited"
    using n(3) get_neighbors_targets[of g current_node] by auto
  from frontier_decreases[OF n(1,2) this finite_targets]
  show "((g, end_node, x21, x22), (g, end_node, visited, current_node # queue))
          \<in> measures [\<lambda>(g, end_node, visited, queue). card (targets g - visited),
                       \<lambda>(g, end_node, visited, queue). length queue]"
    by auto
qed

definition has_path :: "'a graph \<Rightarrow> 'a \<Rightarrow> 'a \<Rightarrow> bool" where
  "has_path g start end_node =
     (if start = end_node then True
      else has_path_loop g end_node {start} [start])"

text \<open>
  \<open>DAG.add_edge\<close> raises \<open>ValueError\<close>, whose message names the edge \<open>u->v\<close>, before
  anything is written; otherwise it is the \<open>add_edge\<close> of the graph store.
\<close>

definition DAG_add_edge :: "'a graph \<Rightarrow> 'a \<Rightarrow> 'a \<Rightarrow> 'a error option \<times> 'a graph" where
  "DAG_add_edge g u v =
     (if has_path g v u then (Some (ValueError u v), g) else add_edge g u v)"

definition successors :: "'a graph \<Rightarrow> 'a \<Rightarrow> 'a list" where
  "successors g node = get_neighbors g node"

section \<open>Sequences of calls, example graphs and the data-model invariant\<close>

datatype 'a call = Add_node 'a | Add_edge 'a 'a

text \<open>
  A call on a base graph and on a DAG; the state after a call that raised is the state
  the exception left behind.
\<close>

fun base_call :: "'a graph \<Rightarrow> 'a call \<Rightarrow> 'a graph" where
  "base_call g (Add_node n) = add_node g n"
| "base_call g (Add_edge u v) = snd (add_edge g u v)"

fun dag_call :: "'a graph \<Rightarrow> 'a call \<Rightarrow> 'a graph" where
  "dag_call g (Add_node n) = add_node g n"
| "dag_call g (Add_edge u v) = snd (DAG_add_edge g u v)"

definition run_base :: "'a call list \<Rightarrow> 'a graph" where
  "run_base cs = foldl base_call init cs"

definition run_dag :: "'a call list \<Rightarrow> 'a graph" where
  "run_dag cs = foldl dag_call init cs"

text \<open>The cycle a -> b, b -> c, c -> a and the diamond a -> b, a -> c, b -> d, c -> d.\<close>

definition cycle3 :: "string graph" where
  "cycle3 = run_base [Add_edge ''a'' ''b'', Add_edge ''b'' ''c'', Add_edge ''c'' ''a'']"

definition diamond :: "string graph" where
  "diamond = run_base [Add_edge ''a'' ''b'', Add_edge ''a'' ''c'', Add_edge ''b'' ''d'',
                       Add_edge ''c'' ''d'']"

text \<open>The DAG with the edges shirt -> tie and tie -> jacket.\<close>

definition outfit :: "string graph" where
  "outfit = run_dag [Add_edge ''shirt'' ''tie'', Add_edge ''tie'' ''jacket'']"

text \<open>
  The invariant of the data model: no repetition in a set or among the keys of the
  dictionary, the keys of the adjacency dictionary are the nodes, and every neighbor is
  a node.
\<close>

definition graph_ok :: "'a graph \<Rightarrow> bool" where
  "graph_ok g \<longleftrightarrow>
     distinct (nodes g) \<and> distinct (map fst (edges g)) \<and>
     set (map fst (edges g)) = set (nodes g) \<and>
     (\<forall>n \<in> set (nodes g).
        distinct (get_neighbors g n) \<and> set (get_neighbors g n) \<subseteq> set (nodes g))"

text \<open>The position of the first occurrence, as Python's \<open>list.index\<close> on a member.\<close>

fun index_of :: "'a list \<Rightarrow> 'a \<Rightarrow> nat" where
  "index_of [] x = 0"
| "index_of (y # ys) x = (if x = y then 0 else Suc (index_of ys x))"

text \<open>The number of predecessors of \<open>n\<close> outside a set of nodes.\<close>

definition pending :: "'a graph \<Rightarrow> 'a set \<Rightarrow> 'a \<Rightarrow> nat" where
  "pending g finished n =
     length (filter (\<lambda>m. m \<notin> finished \<and> n \<in> set (get_neighbors g m)) (nodes g))"

text \<open>
  The dictionary whose keys are the members of \<open>N\<close> and whose values are given by \<open>f\<close>.
\<close>

definition tabulate :: "'a set \<Rightarrow> ('a \<Rightarrow> int) \<Rightarrow> ('a \<rightharpoonup> int)" where
  "tabulate N f = (\<lambda>n. if n \<in> N then Some (f n) else None)"

text \<open>
  The invariant of the \<open>while\<close> loop of \<open>top_sort\<close>, with \<open>f\<close> the values of
  \<open>in_degree\<close>: output and queue hold nodes, without repetition; the in-degree of a
  node counts its predecessors that are not in the output; the nodes of in-degree zero
  are those in the output or in the queue; and every predecessor of a node in the
  output stands before it. \<open>kahn_final\<close> is what remains of it when the queue is empty.
\<close>

definition kahn_inv :: "'a graph \<Rightarrow> ('a \<Rightarrow> int) \<Rightarrow> 'a list \<Rightarrow> 'a list \<Rightarrow> bool" where
  "kahn_inv g f queue top_order \<longleftrightarrow>
     distinct (top_order @ queue) \<and> set (top_order @ queue) \<subseteq> set (nodes g) \<and>
     (\<forall>n \<in> set (nodes g). f n = int (pending g (set top_order) n)) \<and>
     (\<forall>n \<in> set (nodes g). n \<in> set (top_order @ queue) \<longleftrightarrow> f n = 0) \<and>
     (\<forall>u v. v \<in> set top_order \<longrightarrow> v \<in> set (get_neighbors g u) \<longrightarrow>
            u \<in> set top_order \<and> index_of top_order u < index_of top_order v)"

definition kahn_final :: "'a graph \<Rightarrow> 'a list \<Rightarrow> bool" where
  "kahn_final g res \<longleftrightarrow>
     distinct res \<and> set res \<subseteq> set (nodes g) \<and>
     (\<forall>n \<in> set (nodes g). n \<in> set res \<longleftrightarrow> pending g (set res) n = 0) \<and>
     (\<forall>u v. v \<in> set res \<longrightarrow> v \<in> set (get_neighbors g u) \<longrightarrow>
            u \<in> set res \<and> index_of res u < index_of res v)"

section \<open>The graph store over a store of set objects\<close>

text \<open>
  What \<open>get_neighbors\<close> hands to its caller is a Python object, and whether the caller
  can change the graph through it depends on which object it is. Here the sets are
  objects in a store: a reference is an address, the store gives the members of the set
  at each address and the next free address. The graph object holds the reference of
  \<open>self.nodes\<close> and, in \<open>self.edges\<close>, the reference of the adjacency set of each key.
\<close>

type_synonym ref = nat

record 'a heap =
  cells :: "ref \<Rightarrow> 'a list"
  fresh :: ref

record 'a graph_object =
  nodes_ref :: ref
  edges_refs :: "('a \<times> ref) list"

text \<open>\<open>set()\<close> allocates an empty set; \<open>s.add(x)\<close> changes the set at the address \<open>s\<close>.\<close>

definition new_set :: "'a heap \<Rightarrow> ref \<times> 'a heap" where
  "new_set h = (fresh h, h\<lparr>cells := (cells h)(fresh h := []), fresh := Suc (fresh h)\<rparr>)"

definition heap_set_add :: "'a heap \<Rightarrow> ref \<Rightarrow> 'a \<Rightarrow> 'a heap" where
  "heap_set_add h r x = h\<lparr>cells := (cells h)(r := set_add (cells h r) x)\<rparr>"

text \<open>The methods of \<open>VersatileDigraph\<close>, on the object and the store.\<close>

definition init_obj :: "'a heap \<Rightarrow> 'a graph_object \<times> 'a heap" where
  "init_obj h = (case new_set h of (r, h1) \<Rightarrow> (\<lparr>nodes_ref = r, edges_refs = []\<rparr>, h1))"

definition add_node_obj :: "'a graph_object \<times> 'a heap \<Rightarrow> 'a \<Rightarrow> 'a graph_object \<times> 'a heap" where
  "add_node_obj st node =
     (case st of (self, h) \<Rightarrow>
        let h1 = heap_set_add h (nodes_ref self) node
        in if map_of (edges_refs self) node = None
           then (case new_set h1 of (r, h2) \<Rightarrow>
                   (self\<lparr>edges_refs := AList.update node r (edges_refs self)\<rparr>, h2))
           else (self, h1))"

definition add_edge_obj ::
  "'a graph_object \<times> 'a heap \<Rightarrow> 'a \<Rightarrow> 'a \<Rightarrow> 'a error option \<times> 'a graph_object \<times> 'a heap" where
  "add_edge_obj st u v =
     (case add_node_obj (add_node_obj st u) v of (self, h) \<Rightarrow>
        (case map_of (edges_refs self) u of
           None \<Rightarrow> (Some (KeyError u), self, h)
         | Some r \<Rightarrow> (None, self, heap_set_add h r v)))"

text \<open>
  \<open>self.edges.get(node, set())\<close>: the argument \<open>set()\<close> is evaluated first; the result is
  the reference stored under the key, or the new empty set when the key is absent.
\<close>

definition get_neighbors_obj :: "'a graph_object \<times> 'a heap \<Rightarrow> 'a \<Rightarrow> ref \<times> 'a heap" where
  "get_neighbors_obj st node =
     (case st of (self, h) \<Rightarrow>
        (case new_set h of (dflt, h1) \<Rightarrow>
           (case map_of (edges_refs self) node of None \<Rightarrow> (dflt, h1) | Some r \<Rightarrow> (r, h1))))"

text \<open>The graph value that an object and a store stand for.\<close>

definition contents :: "'a graph_object \<times> 'a heap \<Rightarrow> 'a graph" where
  "contents st =
     (case st of (self, h) \<Rightarrow>
        \<lparr>nodes = cells h (nodes_ref self),
         edges = map (\<lambda>(k, r). (k, cells h r)) (edges_refs self)\<rparr>)"

definition empty_heap :: "'a heap" where
  "empty_heap = \<lparr>cells = (\<lambda>_. []), fresh = 0\<rparr>"

text \<open>
  The references of a graph object are allocated, the adjacency sets are kept apart
  from the node set, and no two keys share an adjacency set.
\<close>

definition heap_ok :: "'a graph_object \<times> 'a heap \<Rightarrow> bool" where
  "heap_ok st \<longleftrightarrow>
     (case st of (self, h) \<Rightarrow>
        nodes_ref self < fresh h \<and>
        (\<forall>r \<in> set (map snd (edges_refs self)). r < fresh h \<and> r \<noteq> nodes_ref self) \<and>
        distinct (map snd (edges_refs self)))"

text \<open>
  A caller takes the result of \<open>get_neighbors(node)\<close> and adds \<open>x\<close> to it:
  \<open>s = g.get_neighbors(node); s.add(x)\<close>.
\<close>

definition caller_adds :: "'a graph_object \<times> 'a heap \<Rightarrow> 'a \<Rightarrow> 'a \<Rightarrow> 'a graph_object \<times> 'a heap" where
  "caller_adds st node x =
     (case get_neighbors_obj st node of (r, h1) \<Rightarrow> (fst st, heap_set_add h1 r x))"

text \<open>The graph built by \<open>add_edge(1, 2)\<close> on a new object.\<close>

definition one_edge :: "nat graph_object \<times> nat heap" where
  "one_edge = snd (add_edge_obj (init_obj empty_heap) 1 2)"

section \<open>Properties of the graph store\<close>

lemma map_of_add_node:
  "map_of (edges (add_node g n)) =
     (if map_of (edges g) n = None then (map_of (edges g))(n \<mapsto> []) else map_of (edges g))"
  by (simp add: add_node_def Let_def update_conv')

lemma nodes_add_node: "nodes (add_node g n) = set_add (nodes g) n"
  by (simp add: add_node_def Let_def)

lemma set_set_add: "set (set_add s x) = insert x (set s)"
  by (auto simp: set_add_def)

lemma set_add_idem: "set_add (set_add s x) x = set_add s x"
  by (simp add: set_add_def)

lemma set_add_member: "x \<in> set s \<Longrightarrow> set_add s x = s"
  by (simp add: set_add_def)

lemma update_update_same: "AList.update k v (AList.update k w al) = AList.update k v al"
  by (induction al) auto

lemma add_node_present:
  "n \<in> set (nodes g) \<Longrightarrow> map_of (edges g) n \<noteq> None \<Longrightarrow> add_node g n = g"
  by (auto simp: add_node_def Let_def set_add_member)

text \<open>The state and the outcome of \<open>add_edge\<close>, written out.\<close>

lemma add_edge_eq:
  "add_edge g u v =
     (None, (add_node (add_node g u) v)
              \<lparr>edges := AList.update u (set_add (get_neighbors (add_node (add_node g u) v) u) v)
                          (edges (add_node (add_node g u) v))\<rparr>)"
  by (auto simp: add_edge_def Let_def get_neighbors_def map_of_add_node split: option.splits)

text \<open>
  C7: in every state of the base graph store and for every u and v (also u = v),
  add_edge(u, v) raises nothing; afterwards v is among get_neighbors(u) and both u and v
  are among get_all_nodes(); running add_edge(u, v) again on the resulting state changes
  nothing.
\<close>

theorem add_edge_total_idempotent:
  "fst (add_edge g u v) = None
   \<and> v \<in> set (get_neighbors (snd (add_edge g u v)) u)
   \<and> u \<in> set (get_all_nodes (snd (add_edge g u v)))
   \<and> v \<in> set (get_all_nodes (snd (add_edge g u v)))
   \<and> add_edge (snd (add_edge g u v)) u v = (None, snd (add_edge g u v))"
proof -
  let ?g2 = "add_node (add_node g u) v"
  let ?s = "set_add (get_neighbors ?g2 u) v"
  let ?g3 = "?g2\<lparr>edges := AList.update u ?s (edges ?g2)\<rparr>"
  have eq: "add_edge g u v = (None, ?g3)" by (rule add_edge_eq)
  have nb: "get_neighbors ?g3 u = ?s"
    by (simp add: get_neighbors_def update_conv')
  have un: "u \<in> set (nodes ?g3)" and vn: "v \<in> set (nodes ?g3)"
    by (simp_all add: nodes_add_node set_set_add)
  have ku: "map_of (edges ?g3) u \<noteq> None"
    by (simp add: update_conv')
  have kv: "map_of (edges ?g3) v \<noteq> None"
    by (simp add: update_conv' map_of_add_node)
  have n1: "add_node ?g3 u = ?g3" using un ku by (rule add_node_present)
  have n2: "add_node ?g3 v = ?g3" using vn kv by (rule add_node_present)
  have again: "add_edge ?g3 u v = (None, ?g3)"
    unfolding add_edge_eq[of ?g3 u v] n1 n2 nb
    by (simp add: set_add_idem update_update_same)
  show ?thesis
    unfolding eq using nb un vn again
    by (simp add: get_all_nodes_def set_set_add)
qed

section \<open>Properties of the acyclic guard\<close>

text \<open>
  A path from a visited node to an unvisited one passes through the queue, when every
  visited node outside the queue has all its neighbors visited.
\<close>

lemma path_through_queue:
  assumes "(y, e) \<in> (edge_rel g)\<^sup>*" and "y \<in> V" and "e \<notin> V"
    and "\<forall>x \<in> V - Q. \<forall>z \<in> set (get_neighbors g x). z \<in> V"
  shows "\<exists>x \<in> Q. (x, e) \<in> (edge_rel g)\<^sup>*"
  using assms(1,2)
proof (induction rule: converse_rtrancl_induct)
  case base
  then show ?case using assms(3) by simp
next
  case (step y z)
  show ?case
  proof (cases "y \<in> Q")
    case True
    have "(y, e) \<in> (edge_rel g)\<^sup>*"
      using step.hyps by (auto intro: converse_rtrancl_into_rtrancl)
    then show ?thesis using True by blast
  next
    case False
    then have "z \<in> V" using step.hyps(1) step.prems assms(4) by (auto simp: edge_rel_def)
    then show ?thesis by (rule step.IH)
  qed
qed

lemma has_path_loop_correct:
  "end_node \<notin> visited \<Longrightarrow> set queue \<subseteq> visited \<Longrightarrow>
   \<forall>x \<in> visited - set queue. \<forall>y \<in> set (get_neighbors g x). y \<in> visited \<Longrightarrow>
   has_path_loop g end_node visited queue \<longleftrightarrow> (\<exists>x \<in> set queue. (x, end_node) \<in> (edge_rel g)\<^sup>*)"
proof (induction g end_node visited queue rule: has_path_loop.induct)
  case (1 g end_node visited)
  then show ?case by simp
next
  case (2 g end_node visited c queue)
  let ?ns = "get_neighbors g c"
  show ?case
  proof (cases "scan_neighbors end_node ?ns visited queue")
    case Found
    then have "end_node \<in> set ?ns" by (simp add: scan_neighbors_Found)
    then have "(c, end_node) \<in> (edge_rel g)\<^sup>*" by (auto simp: edge_rel_def)
    then show ?thesis using Found by auto
  next
    case (Continue vis' q')
    from scan_neighbors_shape[OF Continue] obtain new where
      s: "end_node \<notin> set ?ns" "q' = queue @ new" "vis' = visited \<union> set new"
         "set new \<subseteq> set ?ns - visited" "set ?ns \<subseteq> vis'"
      by blast
    have i1: "end_node \<notin> vis'" using 2(2) s by auto
    have i2: "set q' \<subseteq> vis'" using 2(3) s by auto
    have i3: "\<forall>x \<in> vis' - set q'. \<forall>y \<in> set (get_neighbors g x). y \<in> vis'"
    proof (intro ballI)
      fix x y assume x: "x \<in> vis' - set q'" and y: "y \<in> set (get_neighbors g x)"
      have xv: "x \<in> visited" and xq: "x \<notin> set queue" using x s by auto
      show "y \<in> vis'"
      proof (cases "x = c")
        case True
        then show ?thesis using y s(5) by auto
      next
        case False
        then have "x \<in> visited - set (c # queue)" using xv xq by simp
        then have "y \<in> visited" using 2(4) y by blast
        then show ?thesis using s(3) by simp
      qed
    qed
    have ih: "has_path_loop g end_node vis' q'
                \<longleftrightarrow> (\<exists>x \<in> set q'. (x, end_node) \<in> (edge_rel g)\<^sup>*)"
      by (rule 2(1)[OF Continue i1 i2 i3])
    have "(\<exists>x \<in> set q'. (x, end_node) \<in> (edge_rel g)\<^sup>*)
            \<longleftrightarrow> (\<exists>x \<in> set (c # queue). (x, end_node) \<in> (edge_rel g)\<^sup>*)"
    proof
      assume "\<exists>x \<in> set q'. (x, end_node) \<in> (edge_rel g)\<^sup>*"
      then obtain x where x: "x \<in> set q'" "(x, end_node) \<in> (edge_rel g)\<^sup>*" by blast
      show "\<exists>x \<in> set (c # queue). (x, end_node) \<in> (edge_rel g)\<^sup>*"
      proof (cases "x \<in> set queue")
        case True
        then show ?thesis using x by auto
      next
        case False
        then have "x \<in> set ?ns" using x(1) s by auto
        then have "(c, x) \<in> edge_rel g" by (simp add: edge_rel_def)
        then have "(c, end_node) \<in> (edge_rel g)\<^sup>*"
          using x(2) by (rule converse_rtrancl_into_rtrancl)
        then show ?thesis by auto
      qed
    next
      assume "\<exists>x \<in> set (c # queue). (x, end_node) \<in> (edge_rel g)\<^sup>*"
      then obtain x where x: "x \<in> set (c # queue)" "(x, end_node) \<in> (edge_rel g)\<^sup>*" by blast
      show "\<exists>x \<in> set q'. (x, end_node) \<in> (edge_rel g)\<^sup>*"
      proof (cases "x \<in> set queue")
        case True
        then show ?thesis using x s by auto
      next
        case False
        then have xc: "x = c" using x(1) by simp
        have "c \<noteq> end_node" using 2(2,3) by auto
        then obtain y where y: "(c, y) \<in> edge_rel g" "(y, end_node) \<in> (edge_rel g)\<^sup>*"
          using x(2) xc by (auto elim: converse_rtranclE)
        then have "y \<in> vis'" using s(5) by (auto simp: edge_rel_def)
        from path_through_queue[OF y(2) this i1 i3] show ?thesis .
      qed
    qed
    then show ?thesis using ih Continue by simp
  qed
qed

lemma has_path_correct: "has_path g start end_node \<longleftrightarrow> (start, end_node) \<in> (edge_rel g)\<^sup>*"
proof (cases "start = end_node")
  case True
  then show ?thesis by (simp add: has_path_def)
next
  case False
  have "has_path_loop g end_node {start} [start]
          \<longleftrightarrow> (\<exists>x \<in> set [start]. (x, end_node) \<in> (edge_rel g)\<^sup>*)"
    using False by (intro has_path_loop_correct) auto
  then show ?thesis using False by (simp add: has_path_def del: has_path_loop.simps)
qed

lemma get_neighbors_add_node: "get_neighbors (add_node g n) x = get_neighbors g x"
  by (simp add: get_neighbors_def map_of_add_node)

lemma get_neighbors_add_edge:
  "get_neighbors (snd (add_edge g u v)) x =
     (if x = u then set_add (get_neighbors g u) v else get_neighbors g x)"
proof -
  have "get_neighbors (snd (add_edge g u v)) x =
          (if x = u then set_add (get_neighbors (add_node (add_node g u) v) u) v
           else get_neighbors (add_node (add_node g u) v) x)"
    unfolding add_edge_eq by (simp add: get_neighbors_def update_conv')
  then show ?thesis by (simp add: get_neighbors_add_node)
qed

lemma edge_rel_add_node: "edge_rel (add_node g n) = edge_rel g"
  by (simp add: edge_rel_def get_neighbors_add_node)

lemma edge_rel_add_edge: "edge_rel (snd (add_edge g u v)) = insert (u, v) (edge_rel g)"
  by (auto simp: edge_rel_def get_neighbors_add_edge set_set_add split: if_splits)

lemma DAG_add_edge_cases:
  "DAG_add_edge g u v =
     (if (v, u) \<in> (edge_rel g)\<^sup>* then (Some (ValueError u v), g) else add_edge g u v)"
  by (simp add: DAG_add_edge_def has_path_correct)

lemma acyclic_dag_call: "acyclic (edge_rel g) \<Longrightarrow> acyclic (edge_rel (dag_call g c))"
  by (cases c) (simp_all add: edge_rel_add_node DAG_add_edge_cases edge_rel_add_edge)

lemma acyclic_foldl_dag_call:
  "acyclic (edge_rel g) \<Longrightarrow> acyclic (edge_rel (foldl dag_call g cs))"
  by (induction cs arbitrary: g) (simp_all add: acyclic_dag_call)

lemma edge_rel_init: "edge_rel init = {}"
  by (simp add: edge_rel_def get_neighbors_def init_def)

lemma acyclic_run_dag: "acyclic (edge_rel (run_dag cs))"
  unfolding run_dag_def by (rule acyclic_foldl_dag_call) (simp add: edge_rel_init acyclic_def)

lemma outfit_eq:
  "outfit = \<lparr>nodes = [''shirt'', ''tie'', ''jacket''],
             edges = [(''shirt'', [''tie'']), (''tie'', [''jacket'']), (''jacket'', [])]\<rparr>"
  by (simp add: outfit_def run_dag_def DAG_add_edge_def has_path_def add_edge_def add_node_def
      init_def set_add_def Let_def get_neighbors_def)

lemma outfit_paths:
  "(''shirt'', ''jacket'') \<in> (edge_rel outfit)\<^sup>* \<and> (''jacket'', ''shirt'') \<notin> (edge_rel outfit)\<^sup>*"
  unfolding has_path_correct[symmetric]
  by (simp add: outfit_eq has_path_def get_neighbors_def)

text \<open>
  C1: in every state of a DAG and for every u and v, DAG.add_edge(u, v) raises the error
  that names the edge (u, v) exactly when v reaches u along zero or more edges, so a
  self-loop is always rejected; when it raises, the state is the one before the call;
  when it does not, outcome and state are those of the add_edge of the graph store.
\<close>

theorem DAG_add_edge_rejects_iff_path:
  "(fst (DAG_add_edge g u v) = Some (ValueError u v) \<longleftrightarrow> (v, u) \<in> (edge_rel g)\<^sup>*)
   \<and> (fst (DAG_add_edge g u v) \<noteq> None \<longleftrightarrow> (v, u) \<in> (edge_rel g)\<^sup>*)
   \<and> ((v, u) \<in> (edge_rel g)\<^sup>* \<longrightarrow> snd (DAG_add_edge g u v) = g)
   \<and> ((v, u) \<notin> (edge_rel g)\<^sup>* \<longrightarrow> DAG_add_edge g u v = add_edge g u v)
   \<and> DAG_add_edge g u u = (Some (ValueError u u), g)"
  by (simp add: DAG_add_edge_cases add_edge_eq)

theorem DAG_add_edge_rejects_iff_path_witness:
  "(''shirt'', ''jacket'') \<in> (edge_rel outfit)\<^sup>*
   \<and> DAG_add_edge outfit ''jacket'' ''shirt'' = (Some (ValueError ''jacket'' ''shirt''), outfit)
   \<and> ''shirt'' \<notin> set (get_neighbors (snd (DAG_add_edge outfit ''jacket'' ''shirt'')) ''jacket'')
   \<and> (''jacket'', ''shirt'') \<notin> (edge_rel outfit)\<^sup>*
   \<and> DAG_add_edge outfit ''shirt'' ''jacket'' = add_edge outfit ''shirt'' ''jacket''"
proof -
  have nb: "''shirt'' \<notin> set (get_neighbors outfit ''jacket'')"
    by (simp add: outfit_eq get_neighbors_def)
  show ?thesis
    using outfit_paths nb
      DAG_add_edge_rejects_iff_path [of outfit "''jacket''" "''shirt''"]
      DAG_add_edge_rejects_iff_path [of outfit "''shirt''" "''jacket''"]
    by (metis prod.collapse)
qed

text \<open>
  C2: the state after any finite sequence of add_node and add_edge calls on an empty DAG,
  where a rejected add_edge leaves the state as it was, has no directed cycle: no node
  has a path of one or more edges back to itself.
\<close>

theorem dag_states_acyclic: "(n, n) \<notin> (edge_rel (run_dag cs))\<^sup>+"
  using acyclic_run_dag[of cs] by (simp add: acyclic_def)

theorem dag_states_acyclic_witness:
  "(''shirt'', ''shirt'') \<notin>
     (edge_rel (run_dag [Add_edge ''shirt'' ''tie'', Add_edge ''tie'' ''jacket'',
                         Add_edge ''jacket'' ''shirt'', Add_node ''belt'']))\<^sup>+"
  using dag_states_acyclic
    [of "''shirt''" "[Add_edge ''shirt'' ''tie'', Add_edge ''tie'' ''jacket'',
                      Add_edge ''jacket'' ''shirt'', Add_node ''belt'']"]
  by simp

section \<open>The breadth-first traversal\<close>

text \<open>The queue is empty when the loop of \<open>bfs\<close> is reached, so nothing is yielded.\<close>

lemma bfs_empty: "bfs g start = []"
  by (simp add: bfs_def)

text \<open>
  C6 says that bfs(start) yields every node reachable from start, other than start, once.
  On the graph with the single edge a -> b the node b is reachable from a, and bfs(a)
  yields nothing.
\<close>

theorem bfs_skips_reachable_node:
  "''a'' \<in> set (nodes (run_base [Add_edge ''a'' ''b'']))
   \<and> (''a'', ''b'') \<in> (edge_rel (run_base [Add_edge ''a'' ''b'']))\<^sup>*
   \<and> ''b'' \<notin> set (bfs (run_base [Add_edge ''a'' ''b'']) ''a'')
   \<and> bfs (run_base [Add_edge ''a'' ''b'']) ''a'' = []"
proof -
  have "(''a'', ''b'') \<in> edge_rel (run_base [Add_edge ''a'' ''b''])"
    by (simp add: run_base_def edge_rel_add_edge)
  then have "(''a'', ''b'') \<in> (edge_rel (run_base [Add_edge ''a'' ''b'']))\<^sup>*"
    by (rule r_into_rtrancl)
  moreover have "''a'' \<in> set (nodes (run_base [Add_edge ''a'' ''b'']))"
    by (simp add: run_base_def add_edge_eq nodes_add_node set_set_add)
  ultimately show ?thesis by (simp add: bfs_empty)
qed

section \<open>Properties of the depth-first traversal\<close>

lemma cycle3_eq:
  "cycle3 = \<lparr>nodes = [''a'', ''b'', ''c''],
             edges = [(''a'', [''b'']), (''b'', [''c'']), (''c'', [''a''])]\<rparr>"
  by (simp add: cycle3_def run_base_def add_edge_def add_node_def init_def set_add_def Let_def)

lemma diamond_eq:
  "diamond = \<lparr>nodes = [''a'', ''b'', ''c'', ''d''],
              edges = [(''a'', [''b'', ''c'']), (''b'', [''d'']), (''c'', [''d'']), (''d'', [])]\<rparr>"
  by (simp add: diamond_def run_base_def add_edge_def add_node_def init_def set_add_def Let_def)

lemma dfs_diamond: "dfs diamond ''a'' = [''a'', ''b'', ''d'', ''c'']"
  by (simp add: diamond_eq dfs_def get_neighbors_def push_neighbors_def)

lemma dfs_loop_disjoint: "set (dfs_loop g visited stack) \<inter> visited = {}"
  by (induction g visited stack rule: dfs_loop.induct) auto

lemma dfs_loop_distinct: "distinct (dfs_loop g visited stack)"
proof (induction g visited stack rule: dfs_loop.induct)
  case (1 g visited)
  then show ?case by simp
next
  case (2 g visited current_node stack)
  then show ?case
    using dfs_loop_disjoint[of g "insert current_node visited"
        "push_neighbors (insert current_node visited) (get_neighbors g current_node) stack"]
    by auto
qed

text \<open>Whatever the loop yields is reachable from a node on the stack.\<close>

lemma dfs_loop_sound:
  "set (dfs_loop g visited stack) \<subseteq> (edge_rel g)\<^sup>* `` set stack"
proof (induction g visited stack rule: dfs_loop.induct)
  case (1 g visited)
  then show ?case by simp
next
  case (2 g visited c stack)
  show ?case
  proof (cases "c \<in> visited")
    case True
    then show ?thesis using 2(2) by auto
  next
    case False
    let ?st = "push_neighbors (insert c visited) (get_neighbors g c) stack"
    have ih: "set (dfs_loop g (insert c visited) ?st) \<subseteq> (edge_rel g)\<^sup>* `` set ?st"
      using 2(1) False by simp
    have "set ?st \<subseteq> set (get_neighbors g c) \<union> set stack"
      by (auto simp: push_neighbors_eq)
    then have "(edge_rel g)\<^sup>* `` set ?st \<subseteq> (edge_rel g)\<^sup>* `` set (c # stack)"
      by (auto simp: edge_rel_def intro: converse_rtrancl_into_rtrancl)
    then show ?thesis using ih False by auto
  qed
qed

text \<open>
  If every neighbor of a visited node is visited or waits on the stack, then at the end
  the visited and the yielded nodes together are closed under neighbors.
\<close>

lemma dfs_loop_closed:
  "\<forall>x \<in> visited. \<forall>y \<in> set (get_neighbors g x). y \<in> visited \<or> y \<in> set stack \<Longrightarrow>
   set stack \<subseteq> visited \<union> set (dfs_loop g visited stack)
   \<and> (\<forall>x \<in> visited \<union> set (dfs_loop g visited stack).
         \<forall>y \<in> set (get_neighbors g x). y \<in> visited \<union> set (dfs_loop g visited stack))"
proof (induction g visited stack rule: dfs_loop.induct)
  case (1 g visited)
  then show ?case by simp
next
  case (2 g visited c stack)
  show ?case
  proof (cases "c \<in> visited")
    case True
    have "\<forall>x \<in> visited. \<forall>y \<in> set (get_neighbors g x). y \<in> visited \<or> y \<in> set stack"
      using 2(3) True by auto
    then show ?thesis using 2(2) True by auto
  next
    case False
    let ?vis = "insert c visited"
    let ?st = "push_neighbors ?vis (get_neighbors g c) stack"
    have pre: "\<forall>x \<in> ?vis. \<forall>y \<in> set (get_neighbors g x). y \<in> ?vis \<or> y \<in> set ?st"
      using 2(3) by (auto simp: push_neighbors_eq)
    have ih: "set ?st \<subseteq> ?vis \<union> set (dfs_loop g ?vis ?st)
       \<and> (\<forall>x \<in> ?vis \<union> set (dfs_loop g ?vis ?st).
            \<forall>y \<in> set (get_neighbors g x). y \<in> ?vis \<union> set (dfs_loop g ?vis ?st))"
      using 2(1)[OF False pre] .
    have eq: "visited \<union> set (dfs_loop g visited (c # stack)) = ?vis \<union> set (dfs_loop g ?vis ?st)"
      using False by auto
    have "set stack \<subseteq> set ?st" by (auto simp: push_neighbors_eq)
    then have "set (c # stack) \<subseteq> ?vis \<union> set (dfs_loop g ?vis ?st)"
      using ih by auto
    then show ?thesis unfolding eq using ih by blast
  qed
qed

lemma closed_contains_reachable:
  assumes "(s, n) \<in> (edge_rel g)\<^sup>*" and "s \<in> A"
    and "\<forall>x \<in> A. \<forall>y \<in> set (get_neighbors g x). y \<in> A"
  shows "n \<in> A"
  using assms(1,2)
proof (induction rule: rtrancl_induct)
  case base
  then show ?case by simp
next
  case (step y z)
  then show ?case using assms(3) by (auto simp: edge_rel_def)
qed

lemma dfs_loop_start:
  "set (dfs_loop g {} [start]) = {n. (start, n) \<in> (edge_rel g)\<^sup>*}"
proof
  show "set (dfs_loop g {} [start]) \<subseteq> {n. (start, n) \<in> (edge_rel g)\<^sup>*}"
    using dfs_loop_sound[of g "{}" "[start]"] by auto
next
  have c: "set [start] \<subseteq> {} \<union> set (dfs_loop g {} [start])
       \<and> (\<forall>x \<in> {} \<union> set (dfs_loop g {} [start]).
            \<forall>y \<in> set (get_neighbors g x). y \<in> {} \<union> set (dfs_loop g {} [start]))"
    by (rule dfs_loop_closed) simp
  show "{n. (start, n) \<in> (edge_rel g)\<^sup>*} \<subseteq> set (dfs_loop g {} [start])"
  proof
    fix n assume "n \<in> {n. (start, n) \<in> (edge_rel g)\<^sup>*}"
    then have r: "(start, n) \<in> (edge_rel g)\<^sup>*" by simp
    show "n \<in> set (dfs_loop g {} [start])"
      by (rule closed_contains_reachable[OF r]) (use c in auto)
  qed
qed

text \<open>
  C5: for every graph and every start value, dfs(start) is the empty sequence when start
  is not a node of the graph; otherwise it is a finite sequence without repetition whose
  members are exactly the nodes reachable from start (start included), whether or not
  the graph has cycles. In the diamond a -> b, a -> c, b -> d, c -> d the traversal from
  a yields d once.
\<close>

theorem dfs_reachable_once:
  "(start \<notin> set (nodes g) \<longrightarrow> dfs g start = [])
   \<and> (start \<in> set (nodes g) \<longrightarrow>
        distinct (dfs g start) \<and> set (dfs g start) = {n. (start, n) \<in> (edge_rel g)\<^sup>*})
   \<and> count_list (dfs diamond ''a'') ''d'' = 1"
proof -
  have absent: "start \<notin> set (nodes g) \<longrightarrow> dfs g start = []"
    by (simp add: dfs_def)
  have present: "start \<in> set (nodes g) \<longrightarrow>
        distinct (dfs g start) \<and> set (dfs g start) = {n. (start, n) \<in> (edge_rel g)\<^sup>*}"
    by (simp add: dfs_def dfs_loop_distinct dfs_loop_start del: dfs_loop.simps)
  have once: "count_list (dfs diamond ''a'') ''d'' = 1"
    by (simp add: dfs_diamond)
  show ?thesis using absent present once by blast
qed

theorem dfs_reachable_once_witness:
  "''z'' \<notin> set (nodes cycle3) \<and> dfs cycle3 ''z'' = []
   \<and> ''a'' \<in> set (nodes cycle3) \<and> distinct (dfs cycle3 ''a'')
   \<and> set (dfs cycle3 ''a'') = {n. (''a'', n) \<in> (edge_rel cycle3)\<^sup>*}"
proof -
  have a: "''z'' \<notin> set (nodes cycle3)" and b: "''a'' \<in> set (nodes cycle3)"
    by (simp_all add: cycle3_eq)
  show ?thesis
    using a b dfs_reachable_once [of "''z''" cycle3] dfs_reachable_once [of "''a''" cycle3]
    by simp
qed

text \<open>
  C10: for every graph and every start node present in the graph, the sequence of
  dfs(start) is not empty and its first element is start.
\<close>

theorem dfs_starts_with_start:
  "start \<in> set (nodes g) \<Longrightarrow> dfs g start \<noteq> [] \<and> hd (dfs g start) = start"
  by (simp add: dfs_def)

theorem dfs_starts_with_start_witness:
  "(1::nat) \<in> set (nodes (snd (add_edge init 1 2)))
   \<and> dfs (snd (add_edge init (1::nat) 2)) 1 \<noteq> []
   \<and> hd (dfs (snd (add_edge init (1::nat) 2)) 1) = 1"
proof -
  have h: "(1::nat) \<in> set (nodes (snd (add_edge init 1 2)))"
    by (simp add: add_edge_eq nodes_add_node set_set_add)
  show ?thesis using h dfs_starts_with_start [OF h] by simp
qed

section \<open>The invariant of the data model\<close>

lemma get_neighbors_absent: "n \<notin> fst ` set (edges g) \<Longrightarrow> get_neighbors g n = []"
proof -
  assume "n \<notin> fst ` set (edges g)"
  then have "map_of (edges g) n = None" by (simp add: map_of_eq_None_iff)
  then show ?thesis by (simp add: get_neighbors_def)
qed

lemma distinct_set_add: "distinct s \<Longrightarrow> distinct (set_add s x)"
  by (simp add: set_add_def)

lemma keys_add_node: "fst ` set (edges (add_node g n)) = insert n (fst ` set (edges g))"
  by (auto simp: add_node_def Let_def dom_update map_of_eq_None_iff)

lemma distinct_keys_add_node:
  "distinct (map fst (edges g)) \<Longrightarrow> distinct (map fst (edges (add_node g n)))"
  by (simp add: add_node_def Let_def distinct_update)

lemma graph_ok_add_node:
  assumes "graph_ok g"
  shows "graph_ok (add_node g n)"
  unfolding graph_ok_def
proof (intro conjI ballI)
  show "distinct (nodes (add_node g n))"
    using assms by (simp add: nodes_add_node distinct_set_add graph_ok_def)
  show "distinct (map fst (edges (add_node g n)))"
    using assms by (simp add: distinct_keys_add_node graph_ok_def)
  show "set (map fst (edges (add_node g n))) = set (nodes (add_node g n))"
    using assms by (simp add: keys_add_node nodes_add_node set_set_add graph_ok_def)
next
  fix m assume m: "m \<in> set (nodes (add_node g n))"
  show "distinct (get_neighbors (add_node g n) m)"
  proof (cases "m \<in> set (nodes g)")
    case True
    then show ?thesis using assms by (simp add: get_neighbors_add_node graph_ok_def)
  next
    case False
    then have "m \<notin> fst ` set (edges g)" using assms by (simp add: graph_ok_def)
    then have "get_neighbors g m = []" by (rule get_neighbors_absent)
    then show ?thesis by (simp add: get_neighbors_add_node)
  qed
  show "set (get_neighbors (add_node g n) m) \<subseteq> set (nodes (add_node g n))"
  proof (cases "m \<in> set (nodes g)")
    case True
    then show ?thesis
      using assms by (auto simp: get_neighbors_add_node nodes_add_node set_set_add graph_ok_def)
  next
    case False
    then have "m \<notin> fst ` set (edges g)" using assms by (simp add: graph_ok_def)
    then have "get_neighbors g m = []" by (rule get_neighbors_absent)
    then show ?thesis by (simp add: get_neighbors_add_node)
  qed
qed

lemma graph_ok_update_edge:
  assumes ok: "graph_ok g" and u: "u \<in> set (nodes g)" and v: "v \<in> set (nodes g)"
  shows "graph_ok (g\<lparr>edges := AList.update u (set_add (get_neighbors g u) v) (edges g)\<rparr>)"
proof -
  let ?g = "g\<lparr>edges := AList.update u (set_add (get_neighbors g u) v) (edges g)\<rparr>"
  have nb: "get_neighbors ?g m = (if m = u then set_add (get_neighbors g u) v else get_neighbors g m)"
    for m by (simp add: get_neighbors_def update_conv')
  have keys: "fst ` set (edges ?g) = fst ` set (edges g)"
    using ok u by (auto simp: dom_update graph_ok_def)
  show ?thesis
    unfolding graph_ok_def
  proof (intro conjI ballI)
    show "distinct (nodes ?g)" using ok by (simp add: graph_ok_def)
    show "distinct (map fst (edges ?g))" using ok by (simp add: distinct_update graph_ok_def)
    show "set (map fst (edges ?g)) = set (nodes ?g)"
      using keys ok by (simp add: graph_ok_def)
  next
    fix m assume "m \<in> set (nodes ?g)"
    then have m: "m \<in> set (nodes g)" by simp
    show "distinct (get_neighbors ?g m)"
      using ok m u by (simp add: nb distinct_set_add graph_ok_def)
    show "set (get_neighbors ?g m) \<subseteq> set (nodes ?g)"
      using ok m u v by (auto simp: nb set_set_add graph_ok_def)
  qed
qed

lemma graph_ok_add_edge:
  assumes "graph_ok g"
  shows "graph_ok (snd (add_edge g u v))"
proof -
  let ?g2 = "add_node (add_node g u) v"
  have ok2: "graph_ok ?g2" using assms by (intro graph_ok_add_node)
  have "u \<in> set (nodes ?g2)" "v \<in> set (nodes ?g2)"
    by (simp_all add: nodes_add_node set_set_add)
  from graph_ok_update_edge[OF ok2 this] show ?thesis
    unfolding add_edge_eq by simp
qed

lemma graph_ok_init: "graph_ok init"
  by (simp add: graph_ok_def init_def)

lemma graph_ok_base_call: "graph_ok g \<Longrightarrow> graph_ok (base_call g c)"
  by (cases c) (simp_all add: graph_ok_add_node graph_ok_add_edge)

lemma graph_ok_dag_call: "graph_ok g \<Longrightarrow> graph_ok (dag_call g c)"
  by (cases c) (simp_all add: graph_ok_add_node graph_ok_add_edge DAG_add_edge_def)

lemma graph_ok_foldl_base: "graph_ok g \<Longrightarrow> graph_ok (foldl base_call g cs)"
  by (induction cs arbitrary: g) (simp_all add: graph_ok_base_call)

lemma graph_ok_foldl_dag: "graph_ok g \<Longrightarrow> graph_ok (foldl dag_call g cs)"
  by (induction cs arbitrary: g) (simp_all add: graph_ok_dag_call)

lemma graph_ok_run_base: "graph_ok (run_base cs)"
  unfolding run_base_def by (rule graph_ok_foldl_base[OF graph_ok_init])

lemma graph_ok_run_dag: "graph_ok (run_dag cs)"
  unfolding run_dag_def by (rule graph_ok_foldl_dag[OF graph_ok_init])

lemma graph_ok_entries:
  assumes "graph_ok g" and "(k, s) \<in> set (edges g)"
  shows "k \<in> set (nodes g) \<and> set s \<subseteq> set (nodes g)"
proof -
  have k: "k \<in> set (nodes g)" using assms by (force simp: graph_ok_def)
  have "map_of (edges g) k = Some s"
    using assms by (intro map_of_is_SomeI) (simp_all add: graph_ok_def)
  then have "get_neighbors g k = s" by (simp add: get_neighbors_def)
  then show ?thesis using assms(1) k by (auto simp: graph_ok_def)
qed

text \<open>
  C8: in the state after any sequence of add_node and add_edge calls on an empty graph,
  base or DAG, the keys of the adjacency dictionary are exactly the nodes, and every
  member of every adjacency set is a node.
\<close>

theorem reachable_states_invariant:
  "(G = run_base cs \<or> G = run_dag cs) \<longrightarrow>
     fst ` set (edges G) = set (nodes G) \<and>
     (\<forall>(k, s) \<in> set (edges G). set s \<subseteq> set (nodes G))"
proof
  assume "G = run_base cs \<or> G = run_dag cs"
  then have ok: "graph_ok G" using graph_ok_run_base graph_ok_run_dag by auto
  then have "fst ` set (edges G) = set (nodes G)" by (simp add: graph_ok_def)
  then show "fst ` set (edges G) = set (nodes G) \<and>
     (\<forall>(k, s) \<in> set (edges G). set s \<subseteq> set (nodes G))"
    using graph_ok_entries[OF ok] by auto
qed

theorem reachable_states_invariant_witness:
  "(outfit = run_base [Add_edge ''shirt'' ''tie'', Add_edge ''tie'' ''jacket'']
      \<or> outfit = run_dag [Add_edge ''shirt'' ''tie'', Add_edge ''tie'' ''jacket''])
   \<and> fst ` set (edges outfit) = set (nodes outfit)
   \<and> list_all (\<lambda>(k, s). set s \<subseteq> set (nodes outfit)) (edges outfit)"
  using reachable_states_invariant
    [of outfit "[Add_edge ''shirt'' ''tie'', Add_edge ''tie'' ''jacket'']"]
  by (simp add: outfit_def list_all_iff)

section \<open>Properties of the topological sort\<close>

lemma tabulate_update: "n \<in> N \<Longrightarrow> (tabulate N f)(n \<mapsto> d) = tabulate N (f(n := d))"
  by (auto simp: tabulate_def)

lemma tabulate_cong: "(\<And>n. n \<in> N \<Longrightarrow> f n = h n) \<Longrightarrow> tabulate N f = tabulate N h"
  by (auto simp: tabulate_def)

lemma map_of_const: "map_of (map (\<lambda>n. (n, c)) xs) = tabulate (set xs) (\<lambda>_. c)"
  by (induction xs) (auto simp: tabulate_def)

lemma count_neighbors_tabulate:
  "distinct ns \<Longrightarrow> set ns \<subseteq> N \<Longrightarrow>
   count_neighbors ns (tabulate N f) =
     Inr (tabulate N (\<lambda>n. f n + (if n \<in> set ns then 1 else 0)))"
proof (induction ns arbitrary: f)
  case Nil
  then show ?case by simp
next
  case (Cons n ns)
  have n: "n \<in> N" "n \<notin> set ns" "distinct ns" "set ns \<subseteq> N" using Cons.prems by auto
  have t: "tabulate N f n = Some (f n)" using n(1) by (simp add: tabulate_def)
  have "count_neighbors (n # ns) (tabulate N f) = count_neighbors ns (tabulate N (f(n := f n + 1)))"
    using t by (simp add: tabulate_update[OF n(1)])
  also have "\<dots> = Inr (tabulate N (\<lambda>m. (f(n := f n + 1)) m + (if m \<in> set ns then 1 else 0)))"
    by (rule Cons.IH[OF n(3,4)])
  also have "tabulate N (\<lambda>m. (f(n := f n + 1)) m + (if m \<in> set ns then 1 else 0))
               = tabulate N (\<lambda>m. f m + (if m \<in> set (n # ns) then 1 else 0))"
    using n(2) by (intro tabulate_cong) auto
  finally show ?case .
qed

lemma count_in_degrees_tabulate:
  "\<forall>m \<in> set ms. distinct (get_neighbors g m) \<and> set (get_neighbors g m) \<subseteq> N \<Longrightarrow>
   count_in_degrees g ms (tabulate N f) =
     Inr (tabulate N (\<lambda>n. f n + int (length (filter (\<lambda>m. n \<in> set (get_neighbors g m)) ms))))"
proof (induction ms arbitrary: f)
  case Nil
  then show ?case by simp
next
  case (Cons m ms)
  let ?f = "\<lambda>n. f n + (if n \<in> set (get_neighbors g m) then 1 else 0)"
  have a: "count_neighbors (get_neighbors g m) (tabulate N f) = Inr (tabulate N ?f)"
    using Cons.prems by (intro count_neighbors_tabulate) auto
  have b: "count_in_degrees g ms (tabulate N ?f) =
     Inr (tabulate N (\<lambda>n. ?f n + int (length (filter (\<lambda>m. n \<in> set (get_neighbors g m)) ms))))"
    using Cons.prems by (intro Cons.IH) auto
  have c: "tabulate N (\<lambda>n. ?f n + int (length (filter (\<lambda>m. n \<in> set (get_neighbors g m)) ms)))
         = tabulate N (\<lambda>n. f n + int (length (filter (\<lambda>m. n \<in> set (get_neighbors g m)) (m # ms))))"
    by (intro tabulate_cong) auto
  show ?case using a b c by simp
qed

lemma initial_queue_tabulate:
  "set ms \<subseteq> N \<Longrightarrow>
   initial_queue ms (tabulate N f) queue = Inr (queue @ filter (\<lambda>n. f n = 0) ms)"
  by (induction ms arbitrary: queue) (auto simp: tabulate_def)

lemma release_neighbors_tabulate:
  "distinct ns \<Longrightarrow> set ns \<subseteq> N \<Longrightarrow>
   release_neighbors ns (tabulate N f) queue =
     Inr (tabulate N (\<lambda>n. f n - (if n \<in> set ns then 1 else 0)),
          queue @ filter (\<lambda>n. f n = 1) ns)"
proof (induction ns arbitrary: f queue)
  case Nil
  then show ?case by simp
next
  case (Cons n ns)
  have n: "n \<in> N" "n \<notin> set ns" "distinct ns" "set ns \<subseteq> N" using Cons.prems by auto
  have t: "tabulate N f n = Some (f n)" using n(1) by (simp add: tabulate_def)
  let ?f = "f(n := f n - 1)"
  let ?q = "if f n - 1 = 0 then queue @ [n] else queue"
  have "release_neighbors (n # ns) (tabulate N f) queue = release_neighbors ns (tabulate N ?f) ?q"
    using t by (simp add: tabulate_update[OF n(1)])
  also have "\<dots> = Inr (tabulate N (\<lambda>m. ?f m - (if m \<in> set ns then 1 else 0)),
                        ?q @ filter (\<lambda>m. ?f m = 1) ns)"
    by (rule Cons.IH[OF n(3,4)])
  also have "tabulate N (\<lambda>m. ?f m - (if m \<in> set ns then 1 else 0))
               = tabulate N (\<lambda>m. f m - (if m \<in> set (n # ns) then 1 else 0))"
    using n(2) by (intro tabulate_cong) auto
  also have "filter (\<lambda>m. ?f m = 1) ns = filter (\<lambda>m. f m = 1) ns"
    using n(2) by (intro filter_cong) auto
  also have "?q @ filter (\<lambda>m. f m = 1) ns = queue @ filter (\<lambda>m. f m = 1) (n # ns)"
    by auto
  finally show ?case .
qed

lemma length_filter_remove:
  "distinct xs \<Longrightarrow> c \<in> set xs \<Longrightarrow>
   int (length (filter (\<lambda>m. m \<noteq> c \<and> P m) xs)) = int (length (filter P xs)) - (if P c then 1 else 0)"
proof (induction xs)
  case Nil
  then show ?case by simp
next
  case (Cons x xs)
  show ?case
  proof (cases "x = c")
    case True
    then have "c \<notin> set xs" using Cons.prems by simp
    then have "filter (\<lambda>m. m \<noteq> c \<and> P m) xs = filter P xs"
      by (intro filter_cong) auto
    then show ?thesis using True by simp
  next
    case False
    then show ?thesis using Cons by auto
  qed
qed

lemma pending_insert:
  assumes "distinct (nodes g)" and "c \<in> set (nodes g)" and "c \<notin> D"
  shows "int (pending g (insert c D) n) =
           int (pending g D n) - (if n \<in> set (get_neighbors g c) then 1 else 0)"
proof -
  have "pending g (insert c D) n =
          length (filter (\<lambda>m. m \<noteq> c \<and> (m \<notin> D \<and> n \<in> set (get_neighbors g m))) (nodes g))"
    unfolding pending_def by (intro arg_cong[where f = length] filter_cong) auto
  then show ?thesis
    using length_filter_remove[OF assms(1,2), of "\<lambda>m. m \<notin> D \<and> n \<in> set (get_neighbors g m)"] assms(3)
    by (simp add: pending_def)
qed

lemma pending_zero:
  "pending g D n = 0 \<Longrightarrow> u \<in> set (nodes g) \<Longrightarrow> n \<in> set (get_neighbors g u) \<Longrightarrow> u \<in> D"
  unfolding pending_def by (auto simp: filter_empty_conv)

lemma pending_positive:
  "pending g D n \<noteq> 0 \<Longrightarrow> \<exists>m \<in> set (nodes g). m \<notin> D \<and> n \<in> set (get_neighbors g m)"
  unfolding pending_def by (auto simp: filter_empty_conv)

lemma graph_ok_neighbor:
  assumes "graph_ok g" and "n \<in> set (get_neighbors g u)"
  shows "u \<in> set (nodes g) \<and> n \<in> set (nodes g)"
proof -
  have "map_of (edges g) u \<noteq> None"
    using assms(2) by (cases "map_of (edges g) u") (simp_all add: get_neighbors_def)
  then have "u \<in> fst ` set (edges g)" by (simp add: map_of_eq_None_iff)
  then have "u \<in> set (nodes g)" using assms(1) by (simp add: graph_ok_def)
  then show ?thesis using assms by (auto simp: graph_ok_def)
qed

lemma index_of_less: "x \<in> set xs \<Longrightarrow> index_of xs x < length xs"
  by (induction xs) auto

lemma index_of_append_in: "x \<in> set xs \<Longrightarrow> index_of (xs @ ys) x = index_of xs x"
  by (induction xs) auto

lemma index_of_append_out: "x \<notin> set xs \<Longrightarrow> index_of (xs @ ys) x = length xs + index_of ys x"
  by (induction xs) auto

lemma kahn_inv_step:
  assumes ok: "graph_ok g" and inv: "kahn_inv g f (c # queue) top_order"
  shows "kahn_inv g (\<lambda>n. f n - (if n \<in> set (get_neighbors g c) then 1 else 0))
           (queue @ filter (\<lambda>n. f n = 1) (get_neighbors g c)) (top_order @ [c])"
proof -
  let ?ns = "get_neighbors g c"
  let ?N = "set (nodes g)"
  let ?f = "\<lambda>n. f n - (if n \<in> set ?ns then 1 else 0)"
  let ?new = "filter (\<lambda>n. f n = 1) ?ns"
  have d: "distinct (top_order @ c # queue)"
    and sub: "set (top_order @ c # queue) \<subseteq> ?N"
    and deg: "\<forall>n \<in> ?N. f n = int (pending g (set top_order) n)"
    and zero: "\<forall>n \<in> ?N. n \<in> set (top_order @ c # queue) \<longleftrightarrow> f n = 0"
    and topo: "\<forall>u v. v \<in> set top_order \<longrightarrow> v \<in> set (get_neighbors g u) \<longrightarrow>
                 u \<in> set top_order \<and> index_of top_order u < index_of top_order v"
    using inv unfolding kahn_inv_def by blast+
  have cN: "c \<in> ?N" and cO: "c \<notin> set top_order" using d sub by auto
  have dn: "distinct (nodes g)" using ok by (simp add: graph_ok_def)
  have nsd: "distinct ?ns" and nsN: "set ?ns \<subseteq> ?N"
    using ok cN by (auto simp: graph_ok_def)
  have "c \<in> set (top_order @ c # queue)" by simp
  then have fc: "f c = 0" using zero cN by blast
  have deg': "\<forall>n \<in> ?N. ?f n = int (pending g (set (top_order @ [c])) n)"
    using deg pending_insert[OF dn cN cO] by simp
  have pos: "f n \<noteq> 0" if "n \<in> set ?ns" for n
  proof
    assume "f n = 0"
    then have "pending g (set top_order) n = 0" using deg nsN that by auto
    from pending_zero[OF this cN that] show False using cO by simp
  qed
  have fresh: "n \<notin> set (top_order @ c # queue)" if "n \<in> set ?ns" for n
    using pos[OF that] zero nsN that by blast
  have d': "distinct ((top_order @ [c]) @ queue @ ?new)"
    using d nsd fresh by auto
  have sub': "set ((top_order @ [c]) @ queue @ ?new) \<subseteq> ?N"
    using sub nsN by auto
  have zero': "\<forall>n \<in> ?N. n \<in> set ((top_order @ [c]) @ queue @ ?new) \<longleftrightarrow> ?f n = 0"
  proof
    fix n assume nN: "n \<in> ?N"
    show "n \<in> set ((top_order @ [c]) @ queue @ ?new) \<longleftrightarrow> ?f n = 0"
    proof (cases "n \<in> set ?ns")
      case True
      then show ?thesis using fresh[OF True] by auto
    next
      case False
      then show ?thesis using zero nN by auto
    qed
  qed
  have topo': "\<forall>u v. v \<in> set (top_order @ [c]) \<longrightarrow> v \<in> set (get_neighbors g u) \<longrightarrow>
                 u \<in> set (top_order @ [c]) \<and>
                 index_of (top_order @ [c]) u < index_of (top_order @ [c]) v"
  proof (intro allI impI)
    fix u v assume v: "v \<in> set (top_order @ [c])" and e: "v \<in> set (get_neighbors g u)"
    show "u \<in> set (top_order @ [c]) \<and>
          index_of (top_order @ [c]) u < index_of (top_order @ [c]) v"
    proof (cases "v \<in> set top_order")
      case True
      then have "u \<in> set top_order \<and> index_of top_order u < index_of top_order v"
        using topo e by blast
      then show ?thesis using True by (simp add: index_of_append_in)
    next
      case False
      then have vc: "v = c" using v by simp
      have uN: "u \<in> ?N" using graph_ok_neighbor[OF ok e] by simp
      have "pending g (set top_order) c = 0" using deg cN fc by simp
      from pending_zero[OF this uN] e vc have uO: "u \<in> set top_order" by simp
      have "index_of (top_order @ [c]) u = index_of top_order u"
        using uO by (simp add: index_of_append_in)
      moreover have "index_of (top_order @ [c]) c = length top_order"
        using cO by (simp add: index_of_append_out)
      ultimately show ?thesis using uO vc index_of_less[OF uO] by simp
    qed
  qed
  show ?thesis
    unfolding kahn_inv_def using d' sub' deg' zero' topo' by blast
qed

lemma top_sort_loop_final:
  "graph_ok g \<Longrightarrow> in_degree = tabulate (set (nodes g)) f \<Longrightarrow> kahn_inv g f queue top_order \<Longrightarrow>
   \<exists>res. top_sort_loop g in_degree queue top_order = Inr res \<and> kahn_final g res"
proof (induction g in_degree queue top_order arbitrary: f rule: top_sort_loop.induct)
  case (1 g in_degree top_order)
  have "kahn_final g top_order"
    using 1(3) unfolding kahn_inv_def kahn_final_def by auto
  then show ?case by simp
next
  case (2 g in_degree c queue top_order)
  let ?ns = "get_neighbors g c"
  let ?f = "\<lambda>n. f n - (if n \<in> set ?ns then 1 else 0)"
  let ?q = "queue @ filter (\<lambda>n. f n = 1) ?ns"
  have cN: "c \<in> set (nodes g)" using 2(4) by (simp add: kahn_inv_def)
  have nsd: "distinct ?ns" and nsN: "set ?ns \<subseteq> set (nodes g)"
    using 2(2) cN by (auto simp: graph_ok_def)
  have rel: "release_neighbors ?ns in_degree queue = Inr (tabulate (set (nodes g)) ?f, ?q)"
    unfolding 2(3) by (rule release_neighbors_tabulate[OF nsd nsN])
  have inv': "kahn_inv g ?f ?q (top_order @ [c])"
    by (rule kahn_inv_step[OF 2(2,4)])
  have "\<exists>res. top_sort_loop g (tabulate (set (nodes g)) ?f) ?q (top_order @ [c]) = Inr res
              \<and> kahn_final g res"
    by (rule 2(1)[OF rel refl 2(2) refl inv'])
  then show ?case using rel by simp
qed

lemma top_sort_final:
  assumes ok: "graph_ok g"
  shows "\<exists>res. top_sort g = Inr res \<and> kahn_final g res"
proof -
  let ?N = "set (nodes g)"
  let ?f = "\<lambda>n. int (pending g {} n)"
  let ?q = "filter (\<lambda>n. ?f n = 0) (nodes g)"
  have nb: "\<forall>m \<in> set (nodes g). distinct (get_neighbors g m) \<and> set (get_neighbors g m) \<subseteq> ?N"
    using ok by (simp add: graph_ok_def)
  have "count_in_degrees g (nodes g) (tabulate ?N (\<lambda>_. 0)) =
          Inr (tabulate ?N (\<lambda>n. 0 + int (length (filter (\<lambda>m. n \<in> set (get_neighbors g m)) (nodes g)))))"
    by (rule count_in_degrees_tabulate[OF nb])
  then have c: "count_in_degrees g (nodes g) (tabulate ?N (\<lambda>_. 0)) = Inr (tabulate ?N ?f)"
    by (simp add: pending_def)
  have q: "initial_queue (nodes g) (tabulate ?N ?f) [] = Inr ?q"
    using initial_queue_tabulate[of "nodes g" ?N ?f "[]"] by simp
  have inv: "kahn_inv g ?f ?q []"
    using ok by (auto simp: kahn_inv_def graph_ok_def)
  from top_sort_loop_final[OF ok refl inv] obtain res where
    r: "top_sort_loop g (tabulate ?N ?f) ?q [] = Inr res" "kahn_final g res"
    by blast
  have "top_sort g = Inr res"
    unfolding top_sort_def map_of_const Let_def using c q r(1) by simp
  then show ?thesis using r(2) by blast
qed

lemma edge_rel_nodes:
  "graph_ok g \<Longrightarrow> edge_rel g \<subseteq> set (nodes g) \<times> set (nodes g)"
  using graph_ok_neighbor by (fastforce simp: edge_rel_def)

lemma finite_edge_rel: "graph_ok g \<Longrightarrow> finite (edge_rel g)"
  by (rule finite_subset[OF edge_rel_nodes]) simp_all

lemma kahn_final_complete:
  assumes ok: "graph_ok g" and ac: "acyclic (edge_rel g)" and fin: "kahn_final g res"
  shows "set res = set (nodes g)"
proof (rule ccontr)
  assume ne: "set res \<noteq> set (nodes g)"
  have sub: "set res \<subseteq> set (nodes g)" using fin by (simp add: kahn_final_def)
  let ?R = "set (nodes g) - set res"
  from ne sub obtain x where x: "x \<in> ?R" by blast
  have "wf (edge_rel g)" using finite_edge_rel[OF ok] ac by (rule finite_acyclic_wf)
  from wfE_min[OF this x] obtain z where
    z: "z \<in> ?R" and min: "\<And>y. (y, z) \<in> edge_rel g \<Longrightarrow> y \<notin> ?R"
    by blast
  have "pending g (set res) z \<noteq> 0"
    using fin z by (auto simp: kahn_final_def)
  from pending_positive[OF this] obtain m where
    m: "m \<in> set (nodes g)" "m \<notin> set res" "z \<in> set (get_neighbors g m)"
    by blast
  then have "(m, z) \<in> edge_rel g" by (simp add: edge_rel_def)
  from min[OF this] m(1,2) show False by simp
qed

lemma kahn_final_path:
  assumes fin: "kahn_final g res" and path: "(u, v) \<in> (edge_rel g)\<^sup>+"
  shows "v \<in> set res \<longrightarrow> u \<in> set res \<and> index_of res u < index_of res v"
  using path
proof (induction rule: trancl_induct)
  case (base y)
  then show ?case using fin by (auto simp: kahn_final_def edge_rel_def)
next
  case (step y z)
  have "z \<in> set res \<longrightarrow> y \<in> set res \<and> index_of res y < index_of res z"
    using fin step.hyps(2) by (auto simp: kahn_final_def edge_rel_def)
  then show ?case using step.IH by auto
qed

lemma kahn_final_cycle:
  assumes fin: "kahn_final g res" and cyc: "(c, c) \<in> (edge_rel g)\<^sup>+"
    and reach: "(c, n) \<in> (edge_rel g)\<^sup>*"
  shows "n \<notin> set res"
proof
  assume n: "n \<in> set res"
  have "c \<in> set res"
  proof (cases "c = n")
    case True
    then show ?thesis using n by simp
  next
    case False
    then have "(c, n) \<in> (edge_rel g)\<^sup>+" using reach by (simp add: rtrancl_eq_or_trancl)
    from kahn_final_path[OF fin this] n show ?thesis by simp
  qed
  with kahn_final_path[OF fin cyc] show False by simp
qed

lemma diamond_dag:
  "diamond = run_dag [Add_edge ''a'' ''b'', Add_edge ''a'' ''c'', Add_edge ''b'' ''d'',
                      Add_edge ''c'' ''d'']"
  by (simp add: diamond_eq run_dag_def DAG_add_edge_def has_path_def add_edge_def add_node_def
      init_def set_add_def Let_def get_neighbors_def)

lemma top_sort_diamond: "top_sort diamond = Inr [''a'', ''b'', ''c'', ''d'']"
  by (simp add: diamond_eq top_sort_def get_neighbors_def)

text \<open>
  C3: on every acyclic graph that satisfies the invariant of the data model, top_sort()
  raises nothing and returns a sequence that holds every node of the graph exactly once
  and in which u stands before v for every edge u -> v.
\<close>

theorem top_sort_acyclic:
  assumes "graph_ok g" and "\<forall>n. (n, n) \<notin> (edge_rel g)\<^sup>+"
  shows "\<exists>res. top_sort g = Inr res \<and> distinct res \<and> set res = set (get_all_nodes g) \<and>
           (\<forall>u v. v \<in> set (get_neighbors g u) \<longrightarrow> index_of res u < index_of res v)"
proof -
  from top_sort_final[OF assms(1)] obtain res where
    r: "top_sort g = Inr res" and fin: "kahn_final g res"
    by blast
  have ac: "acyclic (edge_rel g)" using assms(2) by (simp add: acyclic_def)
  have all: "set res = set (nodes g)" by (rule kahn_final_complete[OF assms(1) ac fin])
  have ord: "index_of res u < index_of res v" if e: "v \<in> set (get_neighbors g u)" for u v
  proof -
    have "v \<in> set res" using all graph_ok_neighbor[OF assms(1) e] by simp
    then show ?thesis using fin e by (simp add: kahn_final_def)
  qed
  have "distinct res" using fin by (simp add: kahn_final_def)
  then show ?thesis using r all ord by (auto simp: get_all_nodes_def)
qed

theorem top_sort_acyclic_witness:
  "graph_ok diamond \<and> (\<forall>n. (n, n) \<notin> (edge_rel diamond)\<^sup>+)
   \<and> (\<exists>res. top_sort diamond = Inr res \<and> distinct res \<and> set res = set (get_all_nodes diamond) \<and>
           (\<forall>u v. v \<in> set (get_neighbors diamond u) \<longrightarrow> index_of res u < index_of res v))"
proof -
  have ok: "graph_ok diamond"
    unfolding diamond_def by (rule graph_ok_run_base)
  have ac: "\<forall>n. (n, n) \<notin> (edge_rel diamond)\<^sup>+"
    using acyclic_run_dag[of "[Add_edge ''a'' ''b'', Add_edge ''a'' ''c'', Add_edge ''b'' ''d'',
                      Add_edge ''c'' ''d'']"]
    unfolding diamond_dag[symmetric] by (simp add: acyclic_def)
  show ?thesis using ok ac top_sort_acyclic [OF ok ac] by blast
qed

lemma top_sort_cycle3: "top_sort cycle3 = Inr []"
  by (simp add: cycle3_eq top_sort_def get_neighbors_def)

lemma cycle3_cycle: "(''a'', ''a'') \<in> (edge_rel cycle3)\<^sup>+"
proof -
  have "(''a'', ''b'') \<in> edge_rel cycle3" "(''b'', ''c'') \<in> edge_rel cycle3"
    "(''c'', ''a'') \<in> edge_rel cycle3"
    by (simp_all add: edge_rel_def cycle3_eq get_neighbors_def)
  then show ?thesis by (meson trancl.simps)
qed

text \<open>
  C4: on every graph that satisfies the invariant of the data model and has a directed
  cycle, top_sort() raises nothing and returns a sequence shorter than the number of
  nodes, from which the nodes of the cycle and all nodes reachable from them are left
  out; on the cycle a -> b, b -> c, c -> a it returns the empty sequence.
\<close>

theorem top_sort_cyclic:
  "(graph_ok g \<and> (c, c) \<in> (edge_rel g)\<^sup>+ \<longrightarrow>
      (\<exists>res. top_sort g = Inr res \<and> length res < length (get_all_nodes g) \<and>
             (\<forall>n. (c, n) \<in> (edge_rel g)\<^sup>* \<longrightarrow> n \<notin> set res)))
   \<and> top_sort cycle3 = Inr []"
proof -
  have "\<exists>res. top_sort g = Inr res \<and> length res < length (get_all_nodes g) \<and>
             (\<forall>n. (c, n) \<in> (edge_rel g)\<^sup>* \<longrightarrow> n \<notin> set res)"
    if ok: "graph_ok g" and cyc: "(c, c) \<in> (edge_rel g)\<^sup>+"
  proof -
    from top_sort_final[OF ok] obtain res where
      r: "top_sort g = Inr res" and fin: "kahn_final g res"
      by blast
    have out: "n \<notin> set res" if "(c, n) \<in> (edge_rel g)\<^sup>*" for n
      by (rule kahn_final_cycle[OF fin cyc that])
    have cO: "c \<notin> set res" using out[of c] by simp
    have "(c, c) \<in> (set (nodes g) \<times> set (nodes g))\<^sup>+"
      using cyc trancl_mono[OF _ edge_rel_nodes[OF ok]] by blast
    then have cN: "c \<in> set (nodes g)" by (auto dest: tranclD)
    have "set res \<subset> set (nodes g)" using fin cO cN by (auto simp: kahn_final_def)
    then have "card (set res) < card (set (nodes g))"
      by (intro psubset_card_mono) simp_all
    moreover have "distinct res" "distinct (nodes g)"
      using fin ok by (simp_all add: kahn_final_def graph_ok_def)
    ultimately have "length res < length (nodes g)"
      by (simp add: distinct_card)
    then show ?thesis using r out by (auto simp: get_all_nodes_def)
  qed
  then show ?thesis using top_sort_cycle3 by simp
qed

theorem top_sort_cyclic_witness:
  "graph_ok cycle3 \<and> (''a'', ''a'') \<in> (edge_rel cycle3)\<^sup>+
   \<and> (\<exists>res. top_sort cycle3 = Inr res \<and> length res < length (get_all_nodes cycle3) \<and>
             (\<forall>n. (''a'', n) \<in> (edge_rel cycle3)\<^sup>* \<longrightarrow> n \<notin> set res))"
proof -
  have ok: "graph_ok cycle3"
    unfolding cycle3_def by (rule graph_ok_run_base)
  show ?thesis using ok cycle3_cycle top_sort_cyclic [of cycle3 "''a''"] by blast
qed

text \<open>
  Outside the invariant of the data model the subscript \<open>in_degree[neighbor]\<close> can
  raise: here 2 is a neighbor of 1 and not a node.
\<close>

lemma top_sort_outside_invariant:
  "top_sort \<lparr>nodes = [1::nat], edges = [(1, [2])]\<rparr> = Inl (KeyError 2)"
  by (simp add: top_sort_def get_neighbors_def)

section \<open>Aliasing of the adjacency sets\<close>

text \<open>
  The methods on the store compute what the methods on graph values compute; they keep
  the store well formed.
\<close>

lemma update_absent: "map_of al k = None \<Longrightarrow> AList.update k v al = al @ [(k, v)]"
  by (induction al) (auto split: if_splits)

lemma map_cells_cong:
  "(\<And>r. r \<in> set (map snd al) \<Longrightarrow> f r = h r) \<Longrightarrow>
   map (\<lambda>(k, r). (k, f r)) al = map (\<lambda>(k, r). (k, h r)) al"
  by (induction al) auto

lemma map_of_cells: "map_of (map (\<lambda>(k, r). (k, f r)) al) k = map_option f (map_of al k)"
  by (induction al) auto

lemma map_cells_update:
  "distinct (map snd al) \<Longrightarrow> map_of al u = Some r \<Longrightarrow>
   map (\<lambda>(k, r'). (k, (f(r := x)) r')) al = AList.update u x (map (\<lambda>(k, r'). (k, f r')) al)"
proof (induction al)
  case Nil
  then show ?case by simp
next
  case (Cons p al)
  obtain k r' where p: "p = (k, r')" by (cases p)
  show ?case
  proof (cases "k = u")
    case True
    then have r: "r' = r" using Cons.prems(2) p by simp
    have "r \<notin> set (map snd al)" using Cons.prems(1) p r by simp
    then have "map (\<lambda>(k, r'). (k, (f(r := x)) r')) al = map (\<lambda>(k, r'). (k, f r')) al"
      by (intro map_cells_cong) auto
    then show ?thesis using True p r by simp
  next
    case False
    then have m: "map_of al u = Some r" using Cons.prems(2) p by simp
    then have "(u, r) \<in> set al" by (rule map_of_SomeD)
    then have "r \<in> set (map snd al)" by force
    then have "r' \<noteq> r" using Cons.prems(1) p by auto
    moreover have "map (\<lambda>(k, r'). (k, (f(r := x)) r')) al
                     = AList.update u x (map (\<lambda>(k, r'). (k, f r')) al)"
      using Cons.IH Cons.prems(1) m by simp
    ultimately show ?thesis using False p by simp
  qed
qed

lemma add_node_obj_refines:
  assumes "heap_ok st"
  shows "contents (add_node_obj st n) = add_node (contents st) n \<and> heap_ok (add_node_obj st n)"
proof -
  obtain self h where st: "st = (self, h)" by (cases st)
  let ?nr = "nodes_ref self"
  let ?al = "edges_refs self"
  have nr: "?nr < fresh h" and refs: "\<forall>r \<in> set (map snd ?al). r < fresh h \<and> r \<noteq> ?nr"
    and dist: "distinct (map snd ?al)"
    using assms unfolding heap_ok_def st by auto
  let ?h1 = "heap_set_add h ?nr n"
  have same1: "map (\<lambda>(k, r). (k, cells ?h1 r)) ?al = map (\<lambda>(k, r). (k, cells h r)) ?al"
    using refs by (intro map_cells_cong) (auto simp: heap_set_add_def)
  have key: "map_of (edges (contents st)) n = None \<longleftrightarrow> map_of ?al n = None"
    by (simp add: contents_def st map_of_cells)
  show ?thesis
  proof (cases "map_of ?al n = None")
    case False
    have obj: "add_node_obj st n = (self, ?h1)"
      using False by (auto simp: add_node_obj_def st Let_def)
    have k: "map_of (edges (contents st)) n \<noteq> None" using False key by simp
    have pure: "add_node (contents st) n =
                  \<lparr>nodes = set_add (cells h ?nr) n,
                   edges = map (\<lambda>(k, r). (k, cells h r)) ?al\<rparr>"
      using k by (auto simp: add_node_def Let_def contents_def st)
    have c1: "cells ?h1 ?nr = set_add (cells h ?nr) n"
      by (simp add: heap_set_add_def)
    have "contents (add_node_obj st n) = add_node (contents st) n"
      unfolding obj pure using same1 c1 by (simp add: contents_def)
    moreover have "heap_ok (add_node_obj st n)"
      unfolding obj using nr refs dist by (simp add: heap_ok_def heap_set_add_def)
    ultimately show ?thesis by simp
  next
    case True
    define h2 where "h2 = snd (new_set ?h1)"
    have fr: "new_set ?h1 = (fresh h, h2)"
      by (simp add: h2_def new_set_def heap_set_add_def)
    have same2: "map (\<lambda>(k, r). (k, cells h2 r)) ?al = map (\<lambda>(k, r). (k, cells h r)) ?al"
      using refs by (intro map_cells_cong) (auto simp: h2_def heap_set_add_def new_set_def)
    have c2: "cells h2 (fresh h) = []" "cells h2 ?nr = set_add (cells h ?nr) n"
      using nr by (simp_all add: h2_def new_set_def heap_set_add_def)
    have f2: "fresh h2 = Suc (fresh h)"
      by (simp add: h2_def new_set_def heap_set_add_def)
    have obj: "add_node_obj st n = (self\<lparr>edges_refs := ?al @ [(n, fresh h)]\<rparr>, h2)"
      using True by (simp add: add_node_obj_def st Let_def update_absent fr)
    have kn: "map_of (edges (contents st)) n = None" using True key by simp
    have pure: "add_node (contents st) n =
                  \<lparr>nodes = set_add (cells h ?nr) n,
                   edges = map (\<lambda>(k, r). (k, cells h r)) ?al @ [(n, [])]\<rparr>"
      using kn update_absent[OF kn, of "[]"]
      by (simp add: add_node_def Let_def) (simp add: contents_def st)
    have "contents (add_node_obj st n) = add_node (contents st) n"
      unfolding obj pure using same2 c2 by (simp add: contents_def)
    moreover have "heap_ok (add_node_obj st n)"
      unfolding obj using nr refs dist f2 by (auto simp: heap_ok_def)
    ultimately show ?thesis by simp
  qed
qed

lemma add_edge_obj_refines:
  assumes "heap_ok st"
  shows "fst (add_edge_obj st u v) = fst (add_edge (contents st) u v)
         \<and> contents (snd (add_edge_obj st u v)) = snd (add_edge (contents st) u v)
         \<and> heap_ok (snd (add_edge_obj st u v))"
proof -
  let ?st2 = "add_node_obj (add_node_obj st u) v"
  let ?g2 = "add_node (add_node (contents st) u) v"
  have ok1: "heap_ok (add_node_obj st u)" and c1: "contents (add_node_obj st u) = add_node (contents st) u"
    using add_node_obj_refines[OF assms] by simp_all
  have ok2: "heap_ok ?st2" and c2: "contents ?st2 = ?g2"
    using add_node_obj_refines[OF ok1] c1 by simp_all
  obtain self h where st2: "?st2 = (self, h)" by (cases ?st2)
  let ?al = "edges_refs self"
  have nr: "nodes_ref self < fresh h"
    and refs: "\<forall>r \<in> set (map snd ?al). r < fresh h \<and> r \<noteq> nodes_ref self"
    and dist: "distinct (map snd ?al)"
    using ok2 unfolding heap_ok_def st2 by auto
  have g2: "?g2 = \<lparr>nodes = cells h (nodes_ref self), edges = map (\<lambda>(k, r). (k, cells h r)) ?al\<rparr>"
    using c2 by (simp add: contents_def st2)
  have "map_of (edges ?g2) u \<noteq> None" by (simp add: map_of_add_node)
  then obtain r where r: "map_of ?al u = Some r"
    unfolding g2 by (auto simp: map_of_cells)
  then have "(u, r) \<in> set ?al" by (rule map_of_SomeD)
  then have rin: "r \<in> set (map snd ?al)" by force
  then have rn: "r \<noteq> nodes_ref self" using refs by blast
  have obj: "add_edge_obj st u v = (None, self, heap_set_add h r v)"
    using r by (simp add: add_edge_obj_def st2)
  have gn: "get_neighbors ?g2 u = cells h r"
    unfolding g2 using r by (simp add: get_neighbors_def map_of_cells)
  have pure: "add_edge (contents st) u v =
                (None, ?g2\<lparr>edges := AList.update u (set_add (cells h r) v) (edges ?g2)\<rparr>)"
    unfolding add_edge_eq gn ..
  have cells': "cells (heap_set_add h r v) = (cells h)(r := set_add (cells h r) v)"
    by (simp add: heap_set_add_def)
  have "contents (self, heap_set_add h r v) =
          ?g2\<lparr>edges := AList.update u (set_add (cells h r) v) (edges ?g2)\<rparr>"
    unfolding g2 using rn map_cells_update[OF dist r, of "cells h" "set_add (cells h r) v"]
    by (simp add: contents_def cells')
  moreover have "heap_ok (self, heap_set_add h r v)"
    using nr refs dist by (simp add: heap_ok_def heap_set_add_def)
  ultimately show ?thesis unfolding obj pure by simp
qed

lemma init_obj_refines: "contents (init_obj h) = init \<and> heap_ok (init_obj h)"
  by (simp add: init_obj_def new_set_def contents_def init_def heap_ok_def)

lemma get_neighbors_obj_refines:
  assumes "heap_ok (self, h)" and "get_neighbors_obj (self, h) n = (r, h')"
  shows "cells h' r = get_neighbors (contents (self, h)) n \<and> contents (self, h') = contents (self, h)"
proof -
  have nr: "nodes_ref self < fresh h"
    and refs: "\<forall>r \<in> set (map snd (edges_refs self)). r < fresh h \<and> r \<noteq> nodes_ref self"
    using assms(1) unfolding heap_ok_def by auto
  have h': "h' = snd (new_set h)"
    using assms(2) by (auto simp: get_neighbors_obj_def split: prod.splits option.splits)
  have same: "map (\<lambda>(k, r). (k, cells h' r)) (edges_refs self)
                = map (\<lambda>(k, r). (k, cells h r)) (edges_refs self)"
    unfolding h' using refs by (intro map_cells_cong) (auto simp: new_set_def)
  have c: "contents (self, h') = contents (self, h)"
    using same nr by (simp add: contents_def) (simp add: h' new_set_def)
  show ?thesis
  proof (cases "map_of (edges_refs self) n")
    case None
    then have "r = fresh h" using assms(2) by (simp add: get_neighbors_obj_def new_set_def)
    then show ?thesis using None c
      by (simp add: get_neighbors_def contents_def map_of_cells h' new_set_def)
  next
    case (Some r0)
    then have rr: "r = r0" using assms(2)
      by (simp add: get_neighbors_obj_def new_set_def split: prod.splits)
    have "(n, r0) \<in> set (edges_refs self)" using Some by (rule map_of_SomeD)
    then have "r0 \<in> set (map snd (edges_refs self))" by force
    then have "r0 < fresh h" using refs by blast
    then have "cells h' r0 = cells h r0" by (simp add: h' new_set_def)
    then show ?thesis using Some c rr
      by (simp add: get_neighbors_def contents_def map_of_cells)
  qed
qed

text \<open>
  A caller who adds to the result of \<open>get_neighbors\<close> adds an edge to the graph when
  the node is a key, and changes nothing when it is not.
\<close>

lemma caller_adds_present:
  assumes ok: "heap_ok (self, h)" and key: "map_of (edges_refs self) n = Some r"
  shows "contents (caller_adds (self, h) n x) =
           (contents (self, h))
             \<lparr>edges := AList.update n (set_add (get_neighbors (contents (self, h)) n) x)
                         (edges (contents (self, h)))\<rparr>"
proof -
  define h1 where "h1 = snd (new_set h)"
  have g: "get_neighbors_obj (self, h) n = (r, h1)"
    using key by (simp add: get_neighbors_obj_def h1_def split: prod.splits)
  from get_neighbors_obj_refines[OF ok g]
  have c: "cells h1 r = get_neighbors (contents (self, h)) n"
    and same: "contents (self, h1) = contents (self, h)"
    by simp_all
  have dist: "distinct (map snd (edges_refs self))"
    and refs: "\<forall>r \<in> set (map snd (edges_refs self)). r \<noteq> nodes_ref self"
    using ok by (auto simp: heap_ok_def)
  have "(n, r) \<in> set (edges_refs self)" using key by (rule map_of_SomeD)
  then have "r \<in> set (map snd (edges_refs self))" by force
  then have rn: "r \<noteq> nodes_ref self" using refs by blast
  have cells': "cells (heap_set_add h1 r x) = (cells h1)(r := set_add (cells h1 r) x)"
    by (simp add: heap_set_add_def)
  have "contents (self, heap_set_add h1 r x) =
          (contents (self, h1))\<lparr>edges := AList.update n (set_add (cells h1 r) x)
                                            (edges (contents (self, h1)))\<rparr>"
    using rn map_cells_update[OF dist key, of "cells h1" "set_add (cells h1 r) x"]
    by (simp add: contents_def cells')
  then show ?thesis
    unfolding same c by (simp add: caller_adds_def g)
qed

lemma caller_adds_absent:
  assumes ok: "heap_ok (self, h)" and key: "map_of (edges_refs self) n = None"
  shows "contents (caller_adds (self, h) n x) = contents (self, h)"
proof -
  have nr: "nodes_ref self < fresh h"
    and refs: "\<forall>r \<in> set (map snd (edges_refs self)). r < fresh h \<and> r \<noteq> nodes_ref self"
    using ok unfolding heap_ok_def by auto
  let ?h2 = "heap_set_add (snd (new_set h)) (fresh h) x"
  have g: "caller_adds (self, h) n x = (self, ?h2)"
    using key by (simp add: caller_adds_def get_neighbors_obj_def new_set_def)
  have "map (\<lambda>(k, r). (k, cells ?h2 r)) (edges_refs self)
          = map (\<lambda>(k, r). (k, cells h r)) (edges_refs self)"
    using refs by (intro map_cells_cong) (auto simp: new_set_def heap_set_add_def)
  moreover have "cells ?h2 (nodes_ref self) = cells h (nodes_ref self)"
    using nr by (simp add: new_set_def heap_set_add_def)
  ultimately show ?thesis unfolding g by (simp add: contents_def)
qed

lemma one_edge_contents: "contents one_edge = \<lparr>nodes = [1, 2], edges = [(1, [2]), (2, [])]\<rparr>"
  by (simp add: one_edge_def add_edge_obj_def add_node_obj_def init_obj_def new_set_def
      heap_set_add_def empty_heap_def contents_def set_add_def Let_def)

lemma one_edge_mutated:
  "contents (caller_adds one_edge 1 99) = \<lparr>nodes = [1, 2], edges = [(1, [2, 99]), (2, [])]\<rparr>"
  by (simp add: caller_adds_def one_edge_def get_neighbors_obj_def add_edge_obj_def
      add_node_obj_def init_obj_def new_set_def heap_set_add_def empty_heap_def contents_def
      set_add_def Let_def)

text \<open>
  C9 says that the caller may change the set returned by get_neighbors(n) without
  changing the graph. After add_edge(1, 2), adding 99 to the result of get_neighbors(1)
  makes 99 a neighbor of 1 in the graph, and 99 is not a node.
\<close>

theorem get_neighbors_returns_internal_set:
  "get_neighbors (contents one_edge) 1 = [2]
   \<and> get_neighbors (contents (caller_adds one_edge 1 99)) 1 = [2, 99]
   \<and> contents (caller_adds one_edge 1 99) \<noteq> contents one_edge
   \<and> 99 \<notin> set (get_all_nodes (contents (caller_adds one_edge 1 99)))"
  unfolding one_edge_mutated one_edge_contents
  by (simp add: get_neighbors_def get_all_nodes_def)

end
